theory Spec2Isabelle
  imports Main "HOL-Library.Sublist"
begin

section \<open>Strings of UTF-16 code units\<close>

text \<open>
  The program is JavaScript: a string is a sequence of UTF-16 code units, and the epsilon
  marker and the dot marker are single code units outside ASCII. A string is therefore a
  list of code-unit numbers; \<open>js\<close> embeds an ASCII literal.
\<close>

type_synonym jstring = "nat list"

definition js :: "string \<Rightarrow> jstring" where
  "js s = map of_char s"

text \<open>
  The constant \<^verbatim>\<open>EPSILON\<close> is the one-unit string U+03B5 (Greek small epsilon); the dot
  that \<^verbatim>\<open>keyForItem\<close> inserts is the one-unit string U+2022 (bullet).
\<close>

definition EPSILON :: jstring where
  "EPSILON = [949]"

definition DOT :: jstring where
  "DOT = [8226]"

definition ARROW :: jstring where
  "ARROW = [45, 62]"

definition BAR :: jstring where
  "BAR = [124]"

definition QUOTE :: jstring where
  "QUOTE = [34]"

text \<open>
  The code units that \<^verbatim>\<open>String.prototype.trim\<close> strips and \<^verbatim>\<open>\s\<close> matches:
  WhiteSpace and LineTerminator of the language standard.
\<close>

definition isWhiteSpace :: "nat \<Rightarrow> bool" where
  "isWhiteSpace c \<longleftrightarrow>
     c = 9 \<or> c = 10 \<or> c = 11 \<or> c = 12 \<or> c = 13 \<or> c = 32 \<or> c = 160 \<or> c = 5760 \<or>
     (8192 \<le> c \<and> c \<le> 8202) \<or> c = 8232 \<or> c = 8233 \<or> c = 8239 \<or> c = 8287 \<or>
     c = 12288 \<or> c = 65279"

definition trim :: "jstring \<Rightarrow> jstring" where
  "trim s = rev (dropWhile isWhiteSpace (rev (dropWhile isWhiteSpace s)))"

text \<open>\<^verbatim>\<open>s.indexOf(sep) !== -1\<close>.\<close>

fun contains :: "jstring \<Rightarrow> jstring \<Rightarrow> bool" where
  "contains sep [] = (sep = [])"
| "contains sep (c # cs) = (prefix sep (c # cs) \<or> contains sep cs)"

text \<open>
  \<^verbatim>\<open>s.split(sep)\<close> for a non-empty separator string (the program only splits on
  \<^verbatim>\<open>'->'\<close>, \<^verbatim>\<open>'|'\<close> and a newline): the pieces between successive non-overlapping
  occurrences, found left to right. The second argument accumulates the current piece,
  reversed.
\<close>

fun splitStr :: "jstring \<Rightarrow> jstring \<Rightarrow> jstring \<Rightarrow> jstring list" where
  "splitStr sep acc [] = [rev acc]"
| "splitStr sep acc (c # cs) =
     (if sep \<noteq> [] \<and> prefix sep (c # cs)
      then rev acc # splitStr sep [] (drop (length sep - 1) cs)
      else splitStr sep (c # acc) cs)"

text \<open>\<^verbatim>\<open>s.split(/\s+/)\<close>: the pieces between maximal runs of white space.\<close>

function splitWs :: "jstring \<Rightarrow> jstring \<Rightarrow> jstring list" where
  "splitWs acc [] = [rev acc]"
| "splitWs acc (c # cs) =
     (if isWhiteSpace c
      then rev acc # splitWs [] (dropWhile isWhiteSpace cs)
      else splitWs (c # acc) cs)"
  by pat_completeness auto
termination
  by (relation "measure (\<lambda>(acc, s). length s)")
     (auto simp: less_Suc_eq_le length_dropWhile_le)

text \<open>\<^verbatim>\<open>xs.join(sep)\<close> on an array of strings.\<close>

fun join :: "jstring \<Rightarrow> jstring list \<Rightarrow> jstring" where
  "join sep [] = []"
| "join sep [x] = x"
| "join sep (x # y # ys) = x @ sep @ join sep (y # ys)"

text \<open>
  A value that is a string or \<^verbatim>\<open>undefined\<close> is a \<open>jstring option\<close>. A template
  literal renders \<^verbatim>\<open>undefined\<close> as the text \<^verbatim>\<open>undefined\<close>; \<^verbatim>\<open>join\<close> renders
  it as the empty string; \<^verbatim>\<open>!v\<close> holds for \<^verbatim>\<open>undefined\<close> and for the empty string.
\<close>

definition templateStr :: "jstring option \<Rightarrow> jstring" where
  "templateStr v = (case v of None \<Rightarrow> js ''undefined'' | Some s \<Rightarrow> s)"

definition joinStr :: "jstring option \<Rightarrow> jstring" where
  "joinStr v = (case v of None \<Rightarrow> [] | Some s \<Rightarrow> s)"

definition falsy :: "jstring option \<Rightarrow> bool" where
  "falsy v = (case v of None \<Rightarrow> True | Some s \<Rightarrow> s = [])"

section \<open>Errors\<close>

text \<open>
  The program raises in two ways: the runtime's \<^verbatim>\<open>TypeError\<close> when a method is called
  on \<^verbatim>\<open>undefined\<close> or \<^verbatim>\<open>null\<close>, and the \<^verbatim>\<open>throw new Error(...)\<close> of
  \<^verbatim>\<open>LRItem.advance\<close>, which carries its message.
\<close>

datatype error = TypeError | Error jstring

section \<open>GrammarSymbol\<close>

datatype GrammarSymbol = GrammarSymbol (getSymbol: "jstring option")

definition isQuote :: "nat \<Rightarrow> bool" where
  "isQuote c \<longleftrightarrow> c = 39 \<or> c = 34"

text \<open>
  \<^verbatim>\<open>quoteRe.test(this._symbol[0]) && quoteRe.test(this._symbol[this._symbol.length - 1])\<close>:
  indexing \<^verbatim>\<open>undefined\<close> raises; indexing the empty string gives \<^verbatim>\<open>undefined\<close>, on
  which the test is false.
\<close>

definition isTerminal :: "GrammarSymbol \<Rightarrow> error + bool" where
  "isTerminal s =
     (case getSymbol s of
        None \<Rightarrow> Inl TypeError
      | Some t \<Rightarrow> Inr (t \<noteq> [] \<and> isQuote (hd t) \<and> isQuote (last t)))"

definition isNonTerminal :: "GrammarSymbol \<Rightarrow> error + bool" where
  "isNonTerminal s = (case isTerminal s of Inl e \<Rightarrow> Inl e | Inr b \<Rightarrow> Inr (\<not> b))"

definition isEpsilon :: "GrammarSymbol \<Rightarrow> bool" where
  "isEpsilon s \<longleftrightarrow> getSymbol s = Some EPSILON"

definition isSymbol :: "GrammarSymbol \<Rightarrow> jstring option \<Rightarrow> bool" where
  "isSymbol s symbol \<longleftrightarrow> getSymbol s = symbol"

section \<open>Production\<close>

record Production =
  raw :: jstring
  LHS :: GrammarSymbol
  RHS :: "GrammarSymbol list"

text \<open>
  The loop of \<^verbatim>\<open>_normalize\<close> over the tokens of the right-hand side: two adjacent
  tokens \<^verbatim>\<open>"\<close> are one terminal \<^verbatim>\<open>" "\<close>.
\<close>

fun rhsSymbols :: "jstring list \<Rightarrow> GrammarSymbol list" where
  "rhsSymbols [] = []"
| "rhsSymbols [a] = [GrammarSymbol (Some a)]"
| "rhsSymbols (a # b # rest) =
     (if a = QUOTE \<and> b = QUOTE
      then GrammarSymbol (Some (js ''\" \"'')) # rhsSymbols rest
      else GrammarSymbol (Some a) # rhsSymbols (b # rest))"

text \<open>
  \<^verbatim>\<open>new Production(raw)\<close>, that is \<^verbatim>\<open>_normalize\<close>. When the line has neither splitter,
  \<^verbatim>\<open>splitted[1]\<close> is \<^verbatim>\<open>undefined\<close> and \<^verbatim>\<open>splitted[1].trim()\<close> raises.
\<close>

definition Production_normalize :: "jstring \<Rightarrow> error + Production" where
  "Production_normalize r =
     (let splitter = (if contains ARROW r then ARROW else BAR);
          splitted = splitStr splitter [] r
      in case splitted of
           [] \<Rightarrow> Inl TypeError
         | s0 # rest \<Rightarrow>
             (case rest of
                [] \<Rightarrow> Inl TypeError
              | s1 # _ \<Rightarrow>
                  (let rhsStr = trim s1
                   in Inr \<lparr> raw = r,
                            LHS = GrammarSymbol (Some (trim s0)),
                            RHS = (if rhsStr = [] then [GrammarSymbol (Some EPSILON)]
                                   else rhsSymbols (splitWs [] rhsStr)) \<rparr>)))"

definition setLHS :: "jstring option \<Rightarrow> Production \<Rightarrow> Production" where
  "setLHS l p = p\<lparr> LHS := GrammarSymbol l \<rparr>"

section \<open>Grammar\<close>

datatype grammar_input = BnfArray "jstring list" | BnfText jstring

text \<open>
  An object with integer keys, as an association list in the order in which
  \<^verbatim>\<open>for (k in obj)\<close> visits it: ascending keys. \<open>setProp\<close> is the assignment
  \<^verbatim>\<open>obj[k] = v\<close>.
\<close>

fun setProp :: "nat \<Rightarrow> 'v \<Rightarrow> (nat \<times> 'v) list \<Rightarrow> (nat \<times> 'v) list" where
  "setProp k v [] = [(k, v)]"
| "setProp k v ((k', v') # al) =
     (if k = k' then (k, v) # al
      else if k < k' then (k, v) # (k', v') # al
      else (k', v') # setProp k v al)"

record Grammar =
  originalBnf :: grammar_input
  isAugmentedProduction :: "Production option"
  g_bnf :: "(nat \<times> Production) list"
  startSymbol :: "jstring option"

definition toArray :: "grammar_input \<Rightarrow> jstring list" where
  "toArray grammar =
     (case grammar of
        BnfArray a \<Rightarrow> a
      | BnfText t \<Rightarrow> filter (\<lambda>production. trim production \<noteq> []) (splitStr [10] [] t))"

text \<open>
  The augmented rule is built from the template \<^verbatim>\<open>`${S}' -> ${S}`\<close>; code unit 39 is
  the apostrophe.

  The state of the \<^verbatim>\<open>forEach\<close> of \<^verbatim>\<open>_normalizeBnf\<close>: the table being filled,
  \<^verbatim>\<open>currentNonTerminal\<close>, and the two fields of the grammar that the callback assigns.
\<close>

record normalizeState =
  normalizedBnf :: "(nat \<times> Production) list"
  currentNonTerminal :: "jstring option"
  ns_startSymbol :: "jstring option"
  ns_isAugmentedProduction :: "Production option"

fun normalizeLoop :: "nat \<Rightarrow> jstring list \<Rightarrow> normalizeState \<Rightarrow> error + normalizeState" where
  "normalizeLoop k [] st = Inr st"
| "normalizeLoop k (rawProduction # rest) st =
     (let productionNumber = k + 1
      in case Production_normalize rawProduction of
           Inl e \<Rightarrow> Inl e
         | Inr production0 \<Rightarrow>
             (let production = (if falsy (getSymbol (LHS production0))
                                then setLHS (currentNonTerminal st) production0
                                else production0);
                  cur = getSymbol (LHS production)
              in if k = 0 then
                   (case Production_normalize
                           (templateStr cur @ [39] @ js '' -> '' @ templateStr cur) of
                      Inl e \<Rightarrow> Inl e
                    | Inr aug \<Rightarrow>
                        normalizeLoop (Suc k) rest
                          \<lparr> normalizedBnf =
                              setProp productionNumber production
                                (setProp k aug (normalizedBnf st)),
                            currentNonTerminal = cur,
                            ns_startSymbol = cur,
                            ns_isAugmentedProduction = Some aug \<rparr>)
                 else
                   normalizeLoop (Suc k) rest
                     (st\<lparr> normalizedBnf := setProp productionNumber production (normalizedBnf st),
                          currentNonTerminal := cur \<rparr>)))"

definition normalizeBnf :: "grammar_input \<Rightarrow> error + normalizeState" where
  "normalizeBnf originalBnf' =
     normalizeLoop 0 (toArray originalBnf')
       \<lparr> normalizedBnf = [], currentNonTerminal = None,
         ns_startSymbol = None, ns_isAugmentedProduction = None \<rparr>"

text \<open>\<^verbatim>\<open>new Grammar(grammar)\<close>.\<close>

definition new_Grammar :: "grammar_input \<Rightarrow> error + Grammar" where
  "new_Grammar grammar =
     (case normalizeBnf grammar of
        Inl e \<Rightarrow> Inl e
      | Inr st \<Rightarrow>
          Inr \<lparr> originalBnf = grammar,
                isAugmentedProduction = ns_isAugmentedProduction st,
                g_bnf = normalizedBnf st,
                startSymbol = ns_startSymbol st \<rparr>)"

text \<open>
  \<^verbatim>\<open>getProductionsForSymbol\<close>, called with the text of the symbol (a
  \<^verbatim>\<open>GrammarSymbol\<close> argument is unwrapped first): the scan of the whole table, keys kept.
\<close>

definition getProductionsForSymbol :: "Grammar \<Rightarrow> jstring option \<Rightarrow> (nat \<times> Production) list" where
  "getProductionsForSymbol g symbol =
     filter (\<lambda>(k, production). isSymbol (LHS production) symbol) (g_bnf g)"

definition getProduction :: "Grammar \<Rightarrow> nat \<Rightarrow> Production option" where
  "getProduction g number = map_of (g_bnf g) number"

definition getAugmentedProduction :: "Grammar \<Rightarrow> Production option" where
  "getAugmentedProduction g = isAugmentedProduction g"


section \<open>LRItem and Closure: the object store\<close>

text \<open>
  Items and closures are objects with identity: items are shared through the registry and
  their \<^verbatim>\<open>_closure\<close> and \<^verbatim>\<open>_gotoPointer\<close> fields are assigned after construction; the
  item array of a closure grows while it is built. A reference is the index of the object
  in the list of all objects of its class, and \<^verbatim>\<open>new\<close> appends to that list.
  \<^verbatim>\<open>null\<close> is \<open>None\<close>. The global \<^verbatim>\<open>LRItemsRegistry\<close> is part of the store.
  Productions and grammars are never assigned to after the grammar is loaded and are held
  by value.
\<close>

type_synonym ref = nat

record LRItem =
  production :: Production
  dotPosition :: nat
  item_grammar :: Grammar
  closure :: "ref option"
  gotoPointer :: "ref option"

record Closure =
  kernelItem :: ref
  currentItem :: ref
  items :: "ref list"
  closure_grammar :: Grammar

record store =
  itemObjs :: "LRItem list"
  closureObjs :: "Closure list"
  LRItemsRegistry :: "jstring \<rightharpoonup> ref"

definition emptyStore :: store where
  "emptyStore = \<lparr> itemObjs = [], closureObjs = [], LRItemsRegistry = Map.empty \<rparr>"

text \<open>\<^verbatim>\<open>new LRItem({production, dotPosition, grammar})\<close>.\<close>

definition new_LRItem :: "Production \<Rightarrow> nat \<Rightarrow> Grammar \<Rightarrow> store \<Rightarrow> ref \<times> store" where
  "new_LRItem p d g s =
     (length (itemObjs s),
      s\<lparr> itemObjs := itemObjs s @
            [\<lparr> production = p, dotPosition = d, item_grammar = g,
               closure = None, gotoPointer = None \<rparr>] \<rparr>)"

definition isFinal :: "LRItem \<Rightarrow> bool" where
  "isFinal it \<longleftrightarrow> dotPosition it = length (RHS (production it))"

definition isConnected :: "LRItem \<Rightarrow> bool" where
  "isConnected it \<longleftrightarrow> gotoPointer it \<noteq> None"

text \<open>\<^verbatim>\<open>getRHS()[this._dotPosition]\<close>: \<^verbatim>\<open>undefined\<close> beyond the end of the array.\<close>

definition getCurrentSymbol :: "LRItem \<Rightarrow> GrammarSymbol option" where
  "getCurrentSymbol it =
     (if dotPosition it < length (RHS (production it))
      then Some (RHS (production it) ! dotPosition it) else None)"

text \<open>
  \<^verbatim>\<open>!this.isFinal() && this.getCurrentSymbol().isNonTerminal()\<close>; the method call on
  \<^verbatim>\<open>undefined\<close> raises.
\<close>

definition shouldClosure :: "LRItem \<Rightarrow> error + bool" where
  "shouldClosure it =
     (if isFinal it then Inr False
      else case getCurrentSymbol it of
             None \<Rightarrow> Inl TypeError
           | Some symb \<Rightarrow> isNonTerminal symb)"

text \<open>
  \<^verbatim>\<open>LRItem.keyForItem\<close>: \<^verbatim>\<open>splice(dotPosition, 0, dot)\<close> inserts the dot at the
  position, or at the end when the position is beyond it.
\<close>

definition keyForItem :: "Production \<Rightarrow> nat \<Rightarrow> jstring" where
  "keyForItem p d =
     (let rhs = map (\<lambda>symbol. joinStr (getSymbol symbol)) (RHS p);
          spliced = take d rhs @ [DOT] @ drop d rhs
      in templateStr (getSymbol (LHS p)) @ js '' -> '' @ join (js '' '') spliced)"

definition serialize :: "LRItem \<Rightarrow> jstring" where
  "serialize it = keyForItem (production it) (dotPosition it)"

text \<open>\<^verbatim>\<open>advance()\<close> on the item at reference \<open>i\<close>.\<close>

definition advance :: "ref \<Rightarrow> store \<Rightarrow> error + (ref \<times> store)" where
  "advance i s =
     (let this = itemObjs s ! i
      in if isFinal this
         then Inl (Error (js ''Item for '' @ raw (production this) @ js '' is final.''))
         else Inr (new_LRItem (production this) (dotPosition this + 1) (item_grammar this) s))"

subsection \<open>Building a closure\<close>

text \<open>
  The body of the loop of \<^verbatim>\<open>_build\<close> up to the recursive call: look the dot-0 item of
  the production up in the registry, creating and storing it when the key is absent.
\<close>

definition registerItem :: "Production \<Rightarrow> Grammar \<Rightarrow> store \<Rightarrow> ref \<times> store" where
  "registerItem p g s =
     (let itemKey = keyForItem p 0
      in case LRItemsRegistry s itemKey of
           None \<Rightarrow>
             (let (a, s') = new_LRItem p 0 g s
              in (a, s'\<lparr> LRItemsRegistry := (LRItemsRegistry s')(itemKey \<mapsto> a) \<rparr>))
         | Some a \<Rightarrow> (a, s))"

text \<open>\<^verbatim>\<open>this._items.push(addedItem); this._currentItem = addedItem\<close> on closure \<open>c\<close>.\<close>

definition pushItem :: "ref \<Rightarrow> ref \<Rightarrow> store \<Rightarrow> store" where
  "pushItem c a s =
     s\<lparr> closureObjs := (closureObjs s)
          [c := (closureObjs s ! c)\<lparr> items := items (closureObjs s ! c) @ [a],
                                     currentItem := a \<rparr>] \<rparr>"

text \<open>
  The first two statements of the constructor of \<^verbatim>\<open>Closure\<close>: the new object, with the
  kernel item as its current item and its only item.
\<close>

definition allocClosure :: "ref \<Rightarrow> Grammar \<Rightarrow> store \<Rightarrow> ref \<times> store" where
  "allocClosure k g s =
     (length (closureObjs s),
      s\<lparr> closureObjs := closureObjs s @
            [\<lparr> kernelItem = k, currentItem = k, items = [k], closure_grammar = g \<rparr>] \<rparr>)"

text \<open>The assignments \<^verbatim>\<open>this._gotoPointer = c\<close> and \<^verbatim>\<open>this._closure = c\<close> on item \<open>i\<close>.\<close>

definition setGotoPointer :: "ref \<Rightarrow> ref \<Rightarrow> store \<Rightarrow> store" where
  "setGotoPointer i c s =
     s\<lparr> itemObjs := (itemObjs s)[i := (itemObjs s ! i)\<lparr> gotoPointer := Some c \<rparr>] \<rparr>"

definition setClosure :: "ref \<Rightarrow> ref \<Rightarrow> store \<Rightarrow> store" where
  "setClosure i c s =
     s\<lparr> itemObjs := (itemObjs s)[i := (itemObjs s ! i)\<lparr> closure := Some c \<rparr>] \<rparr>"

text \<open>
  The recursion of the program is not bounded by anything the program checks, so every
  recursive function takes fuel: one unit per nested call. \<open>None\<close> is "out of fuel", and a
  call that is \<open>None\<close> for every amount of fuel is a call that does not return.

  \<open>forProductions\<close> is the \<^verbatim>\<open>for (k in productionsForSymbol)\<close> loop of \<^verbatim>\<open>_build\<close>;
  its first argument is the recursive call \<^verbatim>\<open>this._build()\<close>.
\<close>

fun forProductions ::
  "(store \<Rightarrow> (error + store) option) \<Rightarrow> ref \<Rightarrow> Grammar \<Rightarrow> (nat \<times> Production) list \<Rightarrow>
   store \<Rightarrow> (error + store) option" where
  "forProductions rec c g [] s = Some (Inr s)"
| "forProductions rec c g ((k, p) # ps) s =
     (let (addedItem, s1) = registerItem p g s;
          s2 = pushItem c addedItem s1
      in case rec s2 of
           None \<Rightarrow> None
         | Some (Inl e) \<Rightarrow> Some (Inl e)
         | Some (Inr s3) \<Rightarrow> forProductions rec c g ps s3)"

fun build :: "nat \<Rightarrow> ref \<Rightarrow> store \<Rightarrow> (error + store) option" where
  "build 0 c s = None"
| "build (Suc n) c s =
     (let this = closureObjs s ! c;
          cur = itemObjs s ! currentItem this
      in case shouldClosure cur of
           Inl e \<Rightarrow> Some (Inl e)
         | Inr False \<Rightarrow> Some (Inr s)
         | Inr True \<Rightarrow>
             forProductions (build n c) c (closure_grammar this)
               (getProductionsForSymbol (closure_grammar this)
                  (case getCurrentSymbol cur of None \<Rightarrow> None | Some symb \<Rightarrow> getSymbol symb))
               s)"

text \<open>\<^verbatim>\<open>new Closure({kernelItem, grammar})\<close>.\<close>

definition new_Closure :: "nat \<Rightarrow> ref \<Rightarrow> Grammar \<Rightarrow> store \<Rightarrow> (error + (ref \<times> store)) option" where
  "new_Closure n k g s =
     (let (c, s1) = allocClosure k g s
      in case build n c s1 of
           None \<Rightarrow> None
         | Some (Inl e) \<Rightarrow> Some (Inl e)
         | Some (Inr s2) \<Rightarrow> Some (Inr (c, s2)))"

text \<open>
  \<^verbatim>\<open>LRItem.closure()\<close>: \<^verbatim>\<open>undefined\<close> (\<open>None\<close>) when the item should not be closured.
\<close>

definition LRItem_closure :: "nat \<Rightarrow> ref \<Rightarrow> store \<Rightarrow> (error + (ref option \<times> store)) option" where
  "LRItem_closure n i s =
     (let this = itemObjs s ! i
      in case shouldClosure this of
           Inl e \<Rightarrow> Some (Inl e)
         | Inr False \<Rightarrow> Some (Inr (None, s))
         | Inr True \<Rightarrow>
             (case new_Closure n i (item_grammar this) s of
                None \<Rightarrow> None
              | Some (Inl e) \<Rightarrow> Some (Inl e)
              | Some (Inr (c, s1)) \<Rightarrow> Some (Inr (Some c, setClosure i c s1))))"

subsection \<open>Goto\<close>

text \<open>
  \<open>forEachItem\<close> is \<^verbatim>\<open>this.getItems().forEach(item => item.goto())\<close>; its first argument
  is the call \<^verbatim>\<open>item.goto()\<close>, whose result the callback drops.
\<close>

fun forEachItem ::
  "(ref \<Rightarrow> store \<Rightarrow> (error + (ref option \<times> store)) option) \<Rightarrow> ref list \<Rightarrow> store \<Rightarrow>
   (error + store) option" where
  "forEachItem rec [] s = Some (Inr s)"
| "forEachItem rec (i # is) s =
     (case rec i s of
        None \<Rightarrow> None
      | Some (Inl e) \<Rightarrow> Some (Inl e)
      | Some (Inr (r, s1)) \<Rightarrow> forEachItem rec is s1)"

text \<open>
  \<^verbatim>\<open>LRItem.goto()\<close> on the item at reference \<open>i\<close>. The pointer is assigned when the
  constructor of the closure has returned, before the nested \<^verbatim>\<open>goto\<close> of the new
  closure runs; the value returned is read from the field at the end.
\<close>

fun LRItem_goto :: "nat \<Rightarrow> ref \<Rightarrow> store \<Rightarrow> (error + (ref option \<times> store)) option" where
  "LRItem_goto 0 i s = None"
| "LRItem_goto (Suc n) i s =
     (let this = itemObjs s ! i
      in if \<not> isFinal this \<and> \<not> isConnected this then
           (case advance i s of
              Inl e \<Rightarrow> Some (Inl e)
            | Inr (k, s1) \<Rightarrow>
                (case new_Closure n k (item_grammar this) s1 of
                   None \<Rightarrow> None
                 | Some (Inl e) \<Rightarrow> Some (Inl e)
                 | Some (Inr (c, s2)) \<Rightarrow>
                     (let s3 = setGotoPointer i c s2
                      in case forEachItem (LRItem_goto n) (items (closureObjs s3 ! c)) s3 of
                           None \<Rightarrow> None
                         | Some (Inl e) \<Rightarrow> Some (Inl e)
                         | Some (Inr s4) \<Rightarrow> Some (Inr (gotoPointer (itemObjs s4 ! i), s4)))))
         else Some (Inr (gotoPointer this, s)))"

text \<open>\<^verbatim>\<open>Closure.goto()\<close> on the closure at reference \<open>c\<close>.\<close>

definition Closure_goto :: "nat \<Rightarrow> ref \<Rightarrow> store \<Rightarrow> (error + store) option" where
  "Closure_goto n c s = forEachItem (LRItem_goto n) (items (closureObjs s ! c)) s"

subsection \<open>The entry point\<close>

text \<open>
  The driver at the end of the module: a kernel item for the augmented production (a
  \<^verbatim>\<open>null\<close> production when the grammar is empty, on which the first method call raises),
  then \<^verbatim>\<open>kernelItem.closure().goto()\<close>, which raises when \<^verbatim>\<open>closure()\<close> returned
  \<^verbatim>\<open>undefined\<close>. The result is the reference of the kernel item and the store.
\<close>

definition construct :: "nat \<Rightarrow> Grammar \<Rightarrow> store \<Rightarrow> (error + (ref \<times> store)) option" where
  "construct n g s =
     (case getAugmentedProduction g of
        None \<Rightarrow> Some (Inl TypeError)
      | Some p \<Rightarrow>
          (let (kernel, s0) = new_LRItem p 0 g s
           in case LRItem_closure n kernel s0 of
                None \<Rightarrow> None
              | Some (Inl e) \<Rightarrow> Some (Inl e)
              | Some (Inr (None, s1)) \<Rightarrow> Some (Inl TypeError)
              | Some (Inr (Some c, s1)) \<Rightarrow>
                  (case Closure_goto n c s1 of
                     None \<Rightarrow> None
                   | Some (Inl e) \<Rightarrow> Some (Inl e)
                   | Some (Inr s2) \<Rightarrow> Some (Inr (kernel, s2)))))"

section \<open>Invariants of the store and example inputs\<close>

text \<open>Every reference held by the registry is the reference of an allocated item.\<close>

definition registry_valid :: "store \<Rightarrow> bool" where
  "registry_valid s \<longleftrightarrow>
     (\<forall>key a. LRItemsRegistry s key = Some a \<longrightarrow> a < length (itemObjs s))"

text \<open>
  An item is in order when its dot is within its right-hand side and, if it is final, it has
  no goto target. A store is well formed when the registry and every closure hold
  references of allocated items only, every key of the registry is the key of the item
  stored under it, an item at dot position 0, and every item is in order.
\<close>

definition item_ok :: "LRItem \<Rightarrow> bool" where
  "item_ok it \<longleftrightarrow>
     dotPosition it \<le> length (RHS (production it)) \<and> (isFinal it \<longrightarrow> gotoPointer it = None)"

definition closure_refs_valid :: "nat \<Rightarrow> Closure \<Rightarrow> bool" where
  "closure_refs_valid n c \<longleftrightarrow>
     kernelItem c < n \<and> currentItem c < n \<and> (\<forall>i\<in>set (items c). i < n)"

definition registry_keyed :: "store \<Rightarrow> bool" where
  "registry_keyed s \<longleftrightarrow>
     (\<forall>key a. LRItemsRegistry s key = Some a \<longrightarrow>
        serialize (itemObjs s ! a) = key \<and> dotPosition (itemObjs s ! a) = 0)"

definition store_wf :: "store \<Rightarrow> bool" where
  "store_wf s \<longleftrightarrow>
     registry_valid s \<and> registry_keyed s \<and>
     (\<forall>c\<in>set (closureObjs s). closure_refs_valid (length (itemObjs s)) c) \<and>
     (\<forall>it\<in>set (itemObjs s). item_ok it)"

text \<open>
  The assignments the program makes to the store, one rule for each place of the source
  that allocates an object or assigns a field:
  \<^item> \<^verbatim>\<open>new LRItem\<close> at dot position 0 (the driver's kernel item, and the added item of
    \<^verbatim>\<open>_build\<close>);
  \<^item> \<^verbatim>\<open>new LRItem\<close> in \<^verbatim>\<open>advance()\<close>, when it does not raise;
  \<^item> \<^verbatim>\<open>LRItemsRegistry[itemKey] = ...\<close>, which \<^verbatim>\<open>_build\<close> guards by
    \<^verbatim>\<open>!LRItemsRegistry.hasOwnProperty(itemKey)\<close> and makes with the key of the new
    item, an item at dot position 0;
  \<^item> \<^verbatim>\<open>this._items.push(addedItem); this._currentItem = addedItem\<close>;
  \<^item> the constructor of \<^verbatim>\<open>Closure\<close>;
  \<^item> \<^verbatim>\<open>this._gotoPointer = ...\<close>, which \<^verbatim>\<open>goto()\<close> guards by
    \<^verbatim>\<open>!this.isFinal() && !this.isConnected()\<close>;
  \<^item> \<^verbatim>\<open>this._closure = ...\<close> in \<^verbatim>\<open>closure()\<close>.

  A session is any sequence of such assignments: \<open>session s s'\<close> says that the store
  \<open>s'\<close> comes after the store \<open>s\<close> in one run of the program.
\<close>

inductive step :: "store \<Rightarrow> store \<Rightarrow> bool" where
  step_new_item: "step s (snd (new_LRItem p 0 g s))"
| step_advance: "i < length (itemObjs s) \<Longrightarrow> advance i s = Inr (k, s') \<Longrightarrow> step s s'"
| step_register:
    "LRItemsRegistry s key = None \<Longrightarrow> a < length (itemObjs s) \<Longrightarrow>
     serialize (itemObjs s ! a) = key \<Longrightarrow> dotPosition (itemObjs s ! a) = 0 \<Longrightarrow>
     step s (s\<lparr> LRItemsRegistry := (LRItemsRegistry s)(key \<mapsto> a) \<rparr>)"
| step_push:
    "c < length (closureObjs s) \<Longrightarrow> a < length (itemObjs s) \<Longrightarrow> step s (pushItem c a s)"
| step_new_closure: "k < length (itemObjs s) \<Longrightarrow> step s (snd (allocClosure k g s))"
| step_connect:
    "i < length (itemObjs s) \<Longrightarrow> \<not> isFinal (itemObjs s ! i) \<Longrightarrow>
     \<not> isConnected (itemObjs s ! i) \<Longrightarrow> step s (setGotoPointer i c s)"
| step_set_closure: "i < length (itemObjs s) \<Longrightarrow> step s (setClosure i c s)"

abbreviation session :: "store \<Rightarrow> store \<Rightarrow> bool" where
  "session \<equiv> step\<^sup>*\<^sup>*"

text \<open>
  What a later store keeps of an earlier one: every item is still there under its
  reference, over the same production, dot position and grammar; a goto target that was
  assigned is still the same; every key of the registry still has its item.
\<close>

definition evolves :: "store \<Rightarrow> store \<Rightarrow> bool" where
  "evolves s s' \<longleftrightarrow>
     length (itemObjs s) \<le> length (itemObjs s') \<and>
     length (closureObjs s) \<le> length (closureObjs s') \<and>
     (\<forall>j<length (itemObjs s).
        production (itemObjs s' ! j) = production (itemObjs s ! j) \<and>
        dotPosition (itemObjs s' ! j) = dotPosition (itemObjs s ! j) \<and>
        item_grammar (itemObjs s' ! j) = item_grammar (itemObjs s ! j) \<and>
        (gotoPointer (itemObjs s ! j) \<noteq> None \<longrightarrow>
           gotoPointer (itemObjs s' ! j) = gotoPointer (itemObjs s ! j))) \<and>
     (\<forall>key a. LRItemsRegistry s key = Some a \<longrightarrow> LRItemsRegistry s' key = Some a)"

text \<open>
  The grammar of the single line \<^verbatim>\<open>F ->\<close>, as \<^verbatim>\<open>new Grammar(['F ->'])\<close> builds it, and
  the store that holds one item over its production (right-hand side: the epsilon marker alone), at dot position 0.
\<close>

definition epsProduction :: Production where
  "epsProduction =
     \<lparr> raw = js ''F ->'', LHS = GrammarSymbol (Some (js ''F'')),
       RHS = [GrammarSymbol (Some EPSILON)] \<rparr>"

definition epsAugmented :: Production where
  "epsAugmented =
     \<lparr> raw = js ''F'' @ [39] @ js '' -> F'', LHS = GrammarSymbol (Some (js ''F'' @ [39])),
       RHS = [GrammarSymbol (Some (js ''F''))] \<rparr>"

definition epsGrammar :: Grammar where
  "epsGrammar =
     \<lparr> originalBnf = BnfArray [js ''F ->''],
       isAugmentedProduction = Some epsAugmented,
       g_bnf = [(0, epsAugmented), (1, epsProduction)],
       startSymbol = Some (js ''F'') \<rparr>"

definition epsStore :: store where
  "epsStore = snd (new_LRItem epsProduction 0 epsGrammar emptyStore)"

text \<open>
  The example grammar of the module's own test section, as the template literal gives it
  (code unit 10 is the line feed), and the grammar that \<^verbatim>\<open>new Grammar\<close> builds from it.
\<close>

definition exampleText :: jstring where
  "exampleText =
     [10] @ js ''  S -> A A'' @ [10] @ js ''  A -> \"a\" A'' @ [10] @ js ''     | \"b\"'' @ [10]"

definition exampleAugmented :: Production where
  "exampleAugmented =
     \<lparr> raw = js ''S'' @ [39] @ js '' -> S'', LHS = GrammarSymbol (Some (js ''S'' @ [39])),
       RHS = [GrammarSymbol (Some (js ''S''))] \<rparr>"

definition exampleProduction1 :: Production where
  "exampleProduction1 =
     \<lparr> raw = js ''  S -> A A'', LHS = GrammarSymbol (Some (js ''S'')),
       RHS = [GrammarSymbol (Some (js ''A'')), GrammarSymbol (Some (js ''A''))] \<rparr>"

definition exampleProduction2 :: Production where
  "exampleProduction2 =
     \<lparr> raw = js ''  A -> \"a\" A'', LHS = GrammarSymbol (Some (js ''A'')),
       RHS = [GrammarSymbol (Some (js ''\"a\"'')), GrammarSymbol (Some (js ''A''))] \<rparr>"

definition exampleProduction3 :: Production where
  "exampleProduction3 =
     \<lparr> raw = js ''     | \"b\"'', LHS = GrammarSymbol (Some (js ''A'')),
       RHS = [GrammarSymbol (Some (js ''\"b\"''))] \<rparr>"

definition exampleGrammar :: Grammar where
  "exampleGrammar =
     \<lparr> originalBnf = BnfText exampleText,
       isAugmentedProduction = Some exampleAugmented,
       g_bnf = [(0, exampleAugmented), (1, exampleProduction1), (2, exampleProduction2),
                (3, exampleProduction3)],
       startSymbol = Some (js ''S'') \<rparr>"

text \<open>
  The grammar of the single line \<^verbatim>\<open>A  B -> c\<close>, whose left-hand side has two blanks
  in it, as \<^verbatim>\<open>new Grammar\<close> builds it.
\<close>

definition blanksProduction :: Production where
  "blanksProduction =
     \<lparr> raw = js ''A  B -> c'', LHS = GrammarSymbol (Some (js ''A  B'')),
       RHS = [GrammarSymbol (Some (js ''c''))] \<rparr>"

definition blanksAugmented :: Production where
  "blanksAugmented =
     \<lparr> raw = js ''A  B'' @ [39] @ js '' -> A  B'',
       LHS = GrammarSymbol (Some (js ''A  B'' @ [39])),
       RHS = [GrammarSymbol (Some (js ''A'')), GrammarSymbol (Some (js ''B''))] \<rparr>"

definition blanksGrammar :: Grammar where
  "blanksGrammar =
     \<lparr> originalBnf = BnfArray [js ''A  B -> c''],
       isAugmentedProduction = Some blanksAugmented,
       g_bnf = [(0, blanksAugmented), (1, blanksProduction)],
       startSymbol = Some (js ''A  B'') \<rparr>"

text \<open>
  Stores over the one-line grammar \<^verbatim>\<open>F ->\<close>: the store after \<^verbatim>\<open>goto()\<close> on the only
  item of \<open>epsStore\<close>; the same two stores with that item in the registry; and the
  store that the driver leaves when it is run on the grammar from the empty store.
\<close>

definition gotoStore :: store where
  "gotoStore =
     \<lparr> itemObjs =
         [\<lparr> production = epsProduction, dotPosition = 0, item_grammar = epsGrammar,
            closure = None, gotoPointer = Some 0 \<rparr>,
          \<lparr> production = epsProduction, dotPosition = 1, item_grammar = epsGrammar,
            closure = None, gotoPointer = None \<rparr>],
       closureObjs =
         [\<lparr> kernelItem = 1, currentItem = 1, items = [1], closure_grammar = epsGrammar \<rparr>],
       LRItemsRegistry = Map.empty \<rparr>"

definition regStore :: store where
  "regStore = epsStore\<lparr> LRItemsRegistry := [keyForItem epsProduction 0 \<mapsto> 0] \<rparr>"

definition regGotoStore :: store where
  "regGotoStore = gotoStore\<lparr> LRItemsRegistry := [keyForItem epsProduction 0 \<mapsto> 0] \<rparr>"

definition constructedStore :: store where
  "constructedStore =
     \<lparr> itemObjs =
         [\<lparr> production = epsAugmented, dotPosition = 0, item_grammar = epsGrammar,
            closure = Some 0, gotoPointer = Some 1 \<rparr>,
          \<lparr> production = epsProduction, dotPosition = 0, item_grammar = epsGrammar,
            closure = None, gotoPointer = Some 2 \<rparr>,
          \<lparr> production = epsAugmented, dotPosition = 1, item_grammar = epsGrammar,
            closure = None, gotoPointer = None \<rparr>,
          \<lparr> production = epsProduction, dotPosition = 1, item_grammar = epsGrammar,
            closure = None, gotoPointer = None \<rparr>],
       closureObjs =
         [\<lparr> kernelItem = 0, currentItem = 1, items = [0, 1], closure_grammar = epsGrammar \<rparr>,
          \<lparr> kernelItem = 2, currentItem = 2, items = [2], closure_grammar = epsGrammar \<rparr>,
          \<lparr> kernelItem = 3, currentItem = 3, items = [3], closure_grammar = epsGrammar \<rparr>],
       LRItemsRegistry = [keyForItem epsProduction 0 \<mapsto> 1] \<rparr>"

text \<open>
  A left-recursive grammar, lines \<^verbatim>\<open>S -> S "a"\<close> and \<^verbatim>\<open>| "b"\<close>, as
  \<^verbatim>\<open>new Grammar\<close> builds it.
\<close>

definition lrAugmented :: Production where
  "lrAugmented =
     \<lparr> raw = js ''S'' @ [39] @ js '' -> S'', LHS = GrammarSymbol (Some (js ''S'' @ [39])),
       RHS = [GrammarSymbol (Some (js ''S''))] \<rparr>"

definition lrProduction1 :: Production where
  "lrProduction1 =
     \<lparr> raw = js ''S -> S \"a\"'', LHS = GrammarSymbol (Some (js ''S'')),
       RHS = [GrammarSymbol (Some (js ''S'')), GrammarSymbol (Some (js ''\"a\"''))] \<rparr>"

definition lrProduction2 :: Production where
  "lrProduction2 =
     \<lparr> raw = js ''| \"b\"'', LHS = GrammarSymbol (Some (js ''S'')),
       RHS = [GrammarSymbol (Some (js ''\"b\"''))] \<rparr>"

definition lrGrammar :: Grammar where
  "lrGrammar =
     \<lparr> originalBnf = BnfArray [js ''S -> S \"a\"'', js ''| \"b\"''],
       isAugmentedProduction = Some lrAugmented,
       g_bnf = [(0, lrAugmented), (1, lrProduction1), (2, lrProduction2)],
       startSymbol = Some (js ''S'') \<rparr>"

text \<open>The condition under which \<^verbatim>\<open>_build\<close> on closure \<open>c\<close> re-enters itself for ever.\<close>

definition leftrec_loop :: "ref \<Rightarrow> store \<Rightarrow> bool" where
  "leftrec_loop c s \<longleftrightarrow>
     c < length (closureObjs s) \<and>
     closure_grammar (closureObjs s ! c) = lrGrammar \<and>
     dotPosition (itemObjs s ! currentItem (closureObjs s ! c)) = 0 \<and>
     (production (itemObjs s ! currentItem (closureObjs s ! c)) = lrAugmented \<or>
      production (itemObjs s ! currentItem (closureObjs s ! c)) = lrProduction1) \<and>
     (\<forall>a. LRItemsRegistry s (keyForItem lrProduction1 0) = Some a \<longrightarrow>
        production (itemObjs s ! a) = lrProduction1 \<and> dotPosition (itemObjs s ! a) = 0)"

section \<open>Properties of the string operations\<close>

lemma contains_sublist: "contains sep s \<longleftrightarrow> sublist sep s"
  by (induction s) (auto simp: sublist_Cons_right)

lemma splitStr_no_sep:
  "sep \<noteq> [] \<Longrightarrow> \<not> contains sep r \<Longrightarrow> splitStr sep acc r = [rev acc @ r]"
  by (induction r arbitrary: acc) auto

lemma prefix_ARROW: "prefix ARROW s \<longleftrightarrow> (\<exists>t. s = 45 # 62 # t)"
  by (auto simp: ARROW_def prefix_def)

text \<open>The first piece of a split on the arrow ends at the first arrow.\<close>

lemma splitStr_ARROW_first:
  "\<not> contains ARROW l \<Longrightarrow>
   splitStr ARROW acc (l @ ARROW @ r) = (rev acc @ l) # splitStr ARROW [] r"
proof (induction l arbitrary: acc)
  case Nil
  show ?case by (simp add: ARROW_def)
next
  case (Cons c cs)
  from Cons.prems have np: "\<not> prefix ARROW (c # cs)" and nc: "\<not> contains ARROW cs"
    by simp_all
  have "\<not> prefix ARROW (c # cs @ ARROW @ r)"
    using np by (cases cs) (auto simp: prefix_ARROW ARROW_def)
  then show ?case using Cons.IH [OF nc] by (simp add: ARROW_def)
qed

lemma contains_ARROW_mid: "contains ARROW (l @ ARROW @ r)"
  by (simp add: contains_sublist)

lemma first_ARROW:
  "contains ARROW r \<Longrightarrow> \<exists>l r'. r = l @ ARROW @ r' \<and> \<not> contains ARROW l"
proof (induction r)
  case Nil
  then show ?case by (simp add: ARROW_def)
next
  case (Cons c cs)
  show ?case
  proof (cases "prefix ARROW (c # cs)")
    case True
    then obtain t where "c # cs = [] @ ARROW @ t" by (auto simp: prefix_def)
    moreover have "\<not> contains ARROW []" by (simp add: ARROW_def)
    ultimately show ?thesis by blast
  next
    case False
    with Cons.prems have "contains ARROW cs" by simp
    from Cons.IH [OF this] obtain l r'
      where eq: "cs = l @ ARROW @ r'" and nl: "\<not> contains ARROW l"
      by blast
    have "\<not> prefix ARROW (c # l)"
      using False eq by (auto simp: prefix_ARROW)
    with nl have "\<not> contains ARROW (c # l)" by simp
    moreover have "c # cs = (c # l) @ ARROW @ r'" using eq by simp
    ultimately show ?thesis by blast
  qed
qed

lemma not_ws_ARROW: "\<forall>c\<in>set w. isWhiteSpace c \<Longrightarrow> \<not> contains ARROW w"
proof
  assume ws: "\<forall>c\<in>set w. isWhiteSpace c" and "contains ARROW w"
  then have "set ARROW \<subseteq> set w" by (simp add: contains_sublist set_mono_sublist)
  then have "45 \<in> set w" by (simp add: ARROW_def)
  with ws have "isWhiteSpace 45" by blast
  then show False by (simp add: isWhiteSpace_def)
qed

lemma dropWhile_all_append:
  "\<forall>c\<in>set w. P c \<Longrightarrow> dropWhile P (w @ ys) = dropWhile P ys"
  by (induction w) auto

lemma trim_all_ws: "\<forall>c\<in>set w. isWhiteSpace c \<Longrightarrow> trim w = []"
proof -
  assume "\<forall>c\<in>set w. isWhiteSpace c"
  then have "dropWhile isWhiteSpace (w @ []) = dropWhile isWhiteSpace []"
    by (rule dropWhile_all_append)
  then have "dropWhile isWhiteSpace w = []"
    by (simp only: append_Nil2 dropWhile.simps)
  then show ?thesis by (simp only: trim_def rev.simps dropWhile.simps)
qed

lemma trim_ws_around:
  assumes "\<forall>c\<in>set w1. isWhiteSpace c" "\<forall>c\<in>set w2. isWhiteSpace c"
    and "x \<noteq> []" "\<not> isWhiteSpace (hd x)" "\<not> isWhiteSpace (last x)"
  shows "trim (w1 @ x @ w2) = x"
proof -
  have "dropWhile isWhiteSpace (w1 @ x @ w2) = dropWhile isWhiteSpace (x @ w2)"
    using assms(1) by (rule dropWhile_all_append)
  also have "\<dots> = x @ w2"
    using assms(3,4) by (cases x) simp_all
  finally have a: "dropWhile isWhiteSpace (w1 @ x @ w2) = x @ w2" .
  have "\<forall>c\<in>set (rev w2). isWhiteSpace c" using assms(2) by simp
  then have "dropWhile isWhiteSpace (rev w2 @ rev x) = dropWhile isWhiteSpace (rev x)"
    by (rule dropWhile_all_append)
  also have "\<dots> = rev x"
    using assms(3,5) by (cases x rule: rev_cases) simp_all
  finally have b: "dropWhile isWhiteSpace (rev (x @ w2)) = rev x"
    by (simp only: rev_append)
  show ?thesis by (simp only: trim_def a b rev_rev_ident)
qed

lemma trim_sublist: "sublist (trim s) s"
proof -
  have "sublist (rev (dropWhile isWhiteSpace (rev (dropWhile isWhiteSpace s))))
          (dropWhile isWhiteSpace s)"
    by (metis sublist_dropWhile sublist_rev_left)
  then show ?thesis
    unfolding trim_def using sublist_dropWhile sublist_order.order_trans by blast
qed

lemma splitWs_no_ws:
  "\<forall>c\<in>set x. \<not> isWhiteSpace c \<Longrightarrow> splitWs acc x = [rev acc @ x]"
  by (induction x arbitrary: acc) auto

lemma splitStr_pieces_sublist:
  "p \<in> set (splitStr sep acc r) \<Longrightarrow> sublist p (rev acc @ r)"
proof (induction sep acc r rule: splitStr.induct)
  case (1 sep acc)
  then show ?case by simp
next
  case (2 sep acc c cs)
  show ?case
  proof (cases "sep \<noteq> [] \<and> prefix sep (c # cs)")
    case True
    with "2.prems" have "p = rev acc \<or> p \<in> set (splitStr sep [] (drop (length sep - 1) cs))"
      by simp
    then show ?thesis
    proof
      assume "p = rev acc"
      then show ?thesis by simp
    next
      assume "p \<in> set (splitStr sep [] (drop (length sep - 1) cs))"
      with "2.IH"(1) True have "sublist p (drop (length sep - 1) cs)" by simp
      moreover have "sublist (drop (length sep - 1) cs) (rev acc @ c # cs)"
        by (metis sublist_drop sublist_order.order_trans sublist_append_leftI
            append_Cons append_Nil append_assoc)
      ultimately show ?thesis using sublist_order.order_trans by blast
    qed
  next
    case False
    with "2.prems" have "p \<in> set (splitStr sep (c # acc) cs)" by auto
    with "2.IH"(2) False show ?thesis by simp
  qed
qed

section \<open>Loading a grammar\<close>

lemma normalize_garbage:
  assumes "\<not> contains ARROW r" and "\<not> contains BAR r"
  shows "Production_normalize r = Inl TypeError"
proof -
  have "splitStr BAR [] r = [r]"
    using assms(2) splitStr_no_sep [of BAR r "[]"] by (simp add: BAR_def)
  then show ?thesis using assms(1) by (simp add: Production_normalize_def)
qed

lemma normalize_error: "Production_normalize r = Inl e \<Longrightarrow> e = TypeError"
  by (auto simp: Production_normalize_def Let_def split: list.splits)

lemma normalizeLoop_garbage:
  "\<exists>r\<in>set rs. \<not> contains ARROW r \<and> \<not> contains BAR r \<Longrightarrow>
   normalizeLoop k rs st = Inl TypeError"
proof (induction rs arbitrary: k st)
  case Nil
  then show ?case by simp
next
  case (Cons r rs)
  show ?case
  proof (cases "Production_normalize r")
    case (Inl e)
    then show ?thesis using normalize_error [OF Inl] by simp
  next
    case (Inr p0)
    then have "contains ARROW r \<or> contains BAR r"
      using normalize_garbage [of r] by auto
    with Cons.prems have rest: "\<exists>r\<in>set rs. \<not> contains ARROW r \<and> \<not> contains BAR r"
      by auto
    show ?thesis
      using Inr Cons.IH [OF rest]
      by (auto simp: Let_def split: sum.splits dest: normalize_error)
  qed
qed

text \<open>
  Claim C4, as the program has it. A line with neither \<^verbatim>\<open>->\<close> nor \<^verbatim>\<open>|\<close> anywhere in
  the input makes the construction of the grammar raise, so that no grammar is produced;
  the error is the runtime's \<^verbatim>\<open>TypeError\<close> of \<^verbatim>\<open>splitted[1].trim()\<close>, the program has
  no error class of its own. An empty grammar does not raise: it loads as the grammar with
  an empty table, no augmented production and no start symbol.
\<close>

theorem grammar_load_failure:
  "((\<exists>r\<in>set (toArray inp). \<not> contains ARROW r \<and> \<not> contains BAR r) \<longrightarrow>
      new_Grammar inp = Inl TypeError) \<and>
   (toArray inp = [] \<longrightarrow>
      new_Grammar inp =
        Inr \<lparr> originalBnf = inp, isAugmentedProduction = None, g_bnf = [],
              startSymbol = None \<rparr>)"
  by (auto simp: new_Grammar_def normalizeBnf_def normalizeLoop_garbage)

theorem grammar_load_failure_witness:
  "(\<exists>r\<in>set (toArray (BnfArray [js ''garbage''])). \<not> contains ARROW r \<and> \<not> contains BAR r) \<and>
   new_Grammar (BnfArray [js ''garbage'']) = Inl TypeError \<and>
   toArray (BnfText (js '' '')) = [] \<and>
   new_Grammar (BnfText (js '' '')) =
     Inr \<lparr> originalBnf = BnfText (js '' ''), isAugmentedProduction = None, g_bnf = [],
           startSymbol = None \<rparr>"
proof -
  have a: "\<exists>r\<in>set (toArray (BnfArray [js ''garbage''])).
             \<not> contains ARROW r \<and> \<not> contains BAR r"
    by (simp add: toArray_def js_def ARROW_def BAR_def)
  have b: "toArray (BnfText (js '' '')) = []"
    by (simp add: toArray_def js_def trim_def isWhiteSpace_def)
  show ?thesis
    using a b grammar_load_failure [of "BnfArray [js ''garbage'']"]
      grammar_load_failure [of "BnfText (js '' '')"]
    by blast
qed

text \<open>
  Claim C4 as it is written fails on the empty grammar: \<^verbatim>\<open>new Grammar([])\<close> returns a
  grammar.
\<close>

theorem empty_grammar_counterexample:
  "new_Grammar (BnfArray []) =
     Inr \<lparr> originalBnf = BnfArray [], isAugmentedProduction = None, g_bnf = [],
           startSymbol = None \<rparr>"
  by (simp add: new_Grammar_def normalizeBnf_def toArray_def)

section \<open>Items\<close>

lemma epsGrammar_loaded: "new_Grammar (BnfArray [js ''F ->'']) = Inr epsGrammar"
  by (simp add: new_Grammar_def normalizeBnf_def toArray_def Production_normalize_def js_def
      ARROW_def BAR_def trim_def isWhiteSpace_def falsy_def templateStr_def EPSILON_def
      epsGrammar_def epsProduction_def epsAugmented_def QUOTE_def Let_def)

text \<open>
  Claim C5. \<^verbatim>\<open>advance()\<close> raises exactly when the dot position of the item equals the
  length of its right-hand side, and then it raises the \<^verbatim>\<open>Error\<close> whose message names the
  production. Otherwise it returns a new item: its reference is fresh (the next free one),
  no object of the store is changed, the registry is the same map as before and, when the
  registry held allocated items only, does not hold the new one; the new item has the
  production and the grammar of the old one (productions and grammars are values in this
  development), a dot position one greater, and no closure or goto target yet.
\<close>

theorem advance_spec:
  "((\<exists>e. advance i s = Inl e) \<longleftrightarrow>
      dotPosition (itemObjs s ! i) = length (RHS (production (itemObjs s ! i)))) \<and>
   (dotPosition (itemObjs s ! i) = length (RHS (production (itemObjs s ! i))) \<longrightarrow>
      advance i s =
        Inl (Error (js ''Item for '' @ raw (production (itemObjs s ! i)) @ js '' is final.''))) \<and>
   (dotPosition (itemObjs s ! i) \<noteq> length (RHS (production (itemObjs s ! i))) \<longrightarrow>
      (\<exists>s'. advance i s = Inr (length (itemObjs s), s') \<and>
            itemObjs s' = itemObjs s @ [itemObjs s' ! length (itemObjs s)] \<and>
            production (itemObjs s' ! length (itemObjs s)) = production (itemObjs s ! i) \<and>
            dotPosition (itemObjs s' ! length (itemObjs s)) = dotPosition (itemObjs s ! i) + 1 \<and>
            item_grammar (itemObjs s' ! length (itemObjs s)) = item_grammar (itemObjs s ! i) \<and>
            closure (itemObjs s' ! length (itemObjs s)) = None \<and>
            gotoPointer (itemObjs s' ! length (itemObjs s)) = None \<and>
            closureObjs s' = closureObjs s \<and>
            LRItemsRegistry s' = LRItemsRegistry s \<and>
            (registry_valid s \<longrightarrow>
               (\<forall>key. LRItemsRegistry s' key \<noteq> Some (length (itemObjs s))))))"
  by (auto simp: advance_def new_LRItem_def isFinal_def Let_def registry_valid_def)

lemma epsStore_items:
  "itemObjs epsStore =
     [\<lparr> production = epsProduction, dotPosition = 0, item_grammar = epsGrammar,
        closure = None, gotoPointer = None \<rparr>]"
  by (simp add: epsStore_def new_LRItem_def emptyStore_def)

theorem advance_spec_witness:
  "dotPosition (itemObjs epsStore ! 0) \<noteq> length (RHS (production (itemObjs epsStore ! 0))) \<and>
   registry_valid epsStore \<and>
   (\<exists>s'. advance 0 epsStore = Inr (1, s') \<and>
         production (itemObjs s' ! 1) = epsProduction \<and>
         dotPosition (itemObjs s' ! 1) = 1 \<and>
         (\<forall>key. LRItemsRegistry s' key \<noteq> Some 1) \<and>
         dotPosition (itemObjs s' ! 1) = length (RHS (production (itemObjs s' ! 1))) \<and>
         (\<exists>e. advance 1 s' = Inl e))"
proof -
  have l: "length (itemObjs epsStore) = 1" by (simp add: epsStore_items)
  have a: "dotPosition (itemObjs epsStore ! 0) \<noteq> length (RHS (production (itemObjs epsStore ! 0)))"
    by (simp add: epsStore_items epsProduction_def)
  have b: "registry_valid epsStore"
    by (simp add: registry_valid_def epsStore_def new_LRItem_def emptyStore_def)
  from advance_spec [of 0 epsStore] a b obtain s' where
    s': "advance 0 epsStore = Inr (1, s')"
       "production (itemObjs s' ! 1) = epsProduction"
       "dotPosition (itemObjs s' ! 1) = 1"
       "\<forall>key. LRItemsRegistry s' key \<noteq> Some 1"
    by (auto simp: l epsStore_items)
  have c: "dotPosition (itemObjs s' ! 1) = length (RHS (production (itemObjs s' ! 1)))"
    using s'(2,3) by (simp add: epsProduction_def)
  with advance_spec [of 1 s'] have "\<exists>e. advance 1 s' = Inl e" by blast
  with a b s' c show ?thesis by blast
qed

section \<open>Normalising productions and the production table\<close>

lemma normalize_ARROW:
  assumes "\<not> contains ARROW l" and "\<not> contains ARROW r"
  shows "Production_normalize (l @ ARROW @ r) =
     Inr \<lparr> raw = l @ ARROW @ r, LHS = GrammarSymbol (Some (trim l)),
           RHS = (if trim r = [] then [GrammarSymbol (Some EPSILON)]
                  else rhsSymbols (splitWs [] (trim r))) \<rparr>"
proof -
  have "splitStr ARROW [] r = [r]"
    using assms(2) splitStr_no_sep [of ARROW r "[]"] by (simp add: ARROW_def)
  then have "splitStr ARROW [] (l @ ARROW @ r) = [l, r]"
    using splitStr_ARROW_first [OF assms(1), of "[]" r] by simp
  then show ?thesis
    by (simp add: Production_normalize_def contains_ARROW_mid)
qed

lemma not_ws_EPSILON: "\<not> contains ARROW (w1 @ EPSILON @ w2)" if "\<forall>c\<in>set w1. isWhiteSpace c" "\<forall>c\<in>set w2. isWhiteSpace c"
proof
  assume "contains ARROW (w1 @ EPSILON @ w2)"
  then have "set ARROW \<subseteq> set (w1 @ EPSILON @ w2)"
    by (simp only: contains_sublist set_mono_sublist)
  then have "45 \<in> set w1 \<or> 45 \<in> set w2" by (simp add: ARROW_def EPSILON_def)
  with that have "isWhiteSpace 45" by blast
  then show False by (simp add: isWhiteSpace_def)
qed

lemma epsilon_rhs:
  assumes "\<forall>c\<in>set w1. isWhiteSpace c" and "\<forall>c\<in>set w2. isWhiteSpace c"
    and "r = w1 @ w2 \<or> r = w1 @ EPSILON @ w2"
  shows "\<not> contains ARROW r \<and>
         (if trim r = [] then [GrammarSymbol (Some EPSILON)]
          else rhsSymbols (splitWs [] (trim r))) = [GrammarSymbol (Some EPSILON)]"
  using assms(3)
proof
  assume r: "r = w1 @ w2"
  then have "\<forall>c\<in>set r. isWhiteSpace c" using assms(1,2) by auto
  then show ?thesis using not_ws_ARROW trim_all_ws by simp
next
  assume r: "r = w1 @ EPSILON @ w2"
  have "trim (w1 @ EPSILON @ w2) = EPSILON"
    using assms(1,2) by (rule trim_ws_around) (simp_all add: EPSILON_def isWhiteSpace_def)
  moreover have "splitWs [] EPSILON = [EPSILON]"
    by (simp add: EPSILON_def isWhiteSpace_def)
  ultimately show ?thesis
    using not_ws_EPSILON [OF assms(1,2)] r by simp
qed

text \<open>
  Claim C7. A production line whose text after the first \<^verbatim>\<open>->\<close> is empty, is white
  space only, or is the epsilon marker alone (with any white space around it) normalizes
  to a right-hand side of exactly one symbol, the epsilon marker, so its length is 1. An
  item over that production is not final at dot position 0 and final at dot position 1.
  Dot positions greater than 1 are out of range: they exceed the length of the right-hand
  side, no symbol stands there, and \<^verbatim>\<open>advance()\<close> on the item at dot position 1 raises
  instead of producing one.
\<close>

theorem epsilon_production:
  assumes "\<not> contains ARROW l"
    and "\<forall>c\<in>set w1. isWhiteSpace c" and "\<forall>c\<in>set w2. isWhiteSpace c"
    and "r = w1 @ w2 \<or> r = w1 @ EPSILON @ w2"
  shows "\<exists>p. Production_normalize (l @ ARROW @ r) = Inr p \<and>
             RHS p = [GrammarSymbol (Some EPSILON)] \<and> length (RHS p) = 1 \<and>
             (\<forall>it. production it = p \<longrightarrow>
                (dotPosition it = 0 \<longrightarrow> \<not> isFinal it) \<and>
                (dotPosition it = 1 \<longrightarrow> isFinal it) \<and>
                (1 < dotPosition it \<longrightarrow>
                   length (RHS (production it)) < dotPosition it \<and> getCurrentSymbol it = None)) \<and>
             (\<forall>s i. production (itemObjs s ! i) = p \<and> dotPosition (itemObjs s ! i) = 1 \<longrightarrow>
                (\<exists>m. advance i s = Inl (Error m)))"
proof -
  from epsilon_rhs [OF assms(2,3,4)] normalize_ARROW [OF assms(1), of r]
  have "Production_normalize (l @ ARROW @ r) =
     Inr \<lparr> raw = l @ ARROW @ r, LHS = GrammarSymbol (Some (trim l)),
           RHS = [GrammarSymbol (Some EPSILON)] \<rparr>"
    by simp
  then show ?thesis
    by (auto simp: isFinal_def getCurrentSymbol_def advance_def)
qed

theorem epsilon_production_witness:
  "\<not> contains ARROW (js ''F '') \<and> isWhiteSpace 32 \<and> js '' '' = [32] \<and>
   (\<exists>p. Production_normalize (js ''F '' @ ARROW @ js '' '' @ EPSILON) = Inr p \<and>
        RHS p = [GrammarSymbol (Some EPSILON)] \<and>
        \<not> isFinal \<lparr> production = p, dotPosition = 0, item_grammar = epsGrammar,
                     closure = None, gotoPointer = None \<rparr> \<and>
        isFinal \<lparr> production = p, dotPosition = 1, item_grammar = epsGrammar,
                   closure = None, gotoPointer = None \<rparr>) \<and>
   (\<exists>p. Production_normalize (js ''F '' @ ARROW) = Inr p \<and>
        RHS p = [GrammarSymbol (Some EPSILON)])"
proof -
  have a: "\<not> contains ARROW (js ''F '')" by (simp add: js_def ARROW_def)
  have b: "\<forall>c\<in>set (js '' ''). isWhiteSpace c" by (simp add: js_def isWhiteSpace_def)
  have c: "\<forall>c\<in>set []. isWhiteSpace c" by simp
  from epsilon_production [OF a b c, of "js '' '' @ EPSILON @ []"]
  obtain p where p: "Production_normalize (js ''F '' @ ARROW @ js '' '' @ EPSILON) = Inr p"
    "RHS p = [GrammarSymbol (Some EPSILON)]"
    "\<forall>it. production it = p \<longrightarrow>
                (dotPosition it = 0 \<longrightarrow> \<not> isFinal it) \<and>
                (dotPosition it = 1 \<longrightarrow> isFinal it)"
    by auto
  from epsilon_production [OF a c c, of "[] @ []"]
  obtain q where q: "Production_normalize (js ''F '' @ ARROW) = Inr q"
    "RHS q = [GrammarSymbol (Some EPSILON)]"
    by auto
  from p(3) have "\<not> isFinal \<lparr> production = p, dotPosition = 0, item_grammar = epsGrammar,
                     closure = None, gotoPointer = None \<rparr>"
     "isFinal \<lparr> production = p, dotPosition = 1, item_grammar = epsGrammar,
                   closure = None, gotoPointer = None \<rparr>"
    by simp_all
  moreover have "isWhiteSpace 32" "js '' '' = [32]"
    by (simp_all add: isWhiteSpace_def js_def)
  ultimately show ?thesis using a p(1,2) q by blast
qed

lemma setProp_append:
  "\<forall>k'\<in>set (map fst al). k' < k \<Longrightarrow> setProp k v al = al @ [(k, v)]"
  by (induction al) auto

lemma normalize_raw: "Production_normalize r = Inr p \<Longrightarrow> raw p = r"
  by (auto simp: Production_normalize_def Let_def split: list.splits)

lemma normalizeLoop_table:
  "0 < k \<Longrightarrow> map fst (normalizedBnf st) = [0..<Suc k] \<Longrightarrow>
   normalizeLoop k rs st = Inr st' \<Longrightarrow>
   ns_startSymbol st' = ns_startSymbol st \<and>
   ns_isAugmentedProduction st' = ns_isAugmentedProduction st \<and>
   (\<exists>ps. normalizedBnf st' = normalizedBnf st @ zip [Suc k..<Suc k + length rs] ps \<and>
         map raw ps = rs)"
proof (induction rs arbitrary: k st)
  case Nil
  then show ?case by simp
next
  case (Cons r rs)
  from Cons.prems(3) obtain p0 where p0: "Production_normalize r = Inr p0"
    by (cases "Production_normalize r") simp_all
  define p where "p = (if falsy (getSymbol (LHS p0)) then setLHS (currentNonTerminal st) p0 else p0)"
  define st1 where "st1 = st\<lparr> normalizedBnf := setProp (Suc k) p (normalizedBnf st),
                          currentNonTerminal := getSymbol (LHS p) \<rparr>"
  have loop: "normalizeLoop (Suc k) rs st1 = Inr st'"
    using Cons.prems(1,3) p0 by (simp add: Let_def p_def st1_def)
  have rawp: "raw p = r"
    using normalize_raw [OF p0] by (simp add: p_def setLHS_def)
  have "\<forall>k'\<in>set (map fst (normalizedBnf st)). k' < Suc k"
    using Cons.prems(2) by auto
  then have sp: "setProp (Suc k) p (normalizedBnf st) = normalizedBnf st @ [(Suc k, p)]"
    by (rule setProp_append)
  have keys: "map fst (normalizedBnf st1) = [0..<Suc (Suc k)]"
    using Cons.prems(2) by (simp add: st1_def sp)
  from Cons.IH [OF _ keys loop] obtain ps where
    ih: "ns_startSymbol st' = ns_startSymbol st1"
        "ns_isAugmentedProduction st' = ns_isAugmentedProduction st1"
        "normalizedBnf st' = normalizedBnf st1 @ zip [Suc (Suc k)..<Suc (Suc k) + length rs] ps"
        "map raw ps = rs"
    by auto
  have u: "[Suc k..<Suc k + length (r # rs)] = Suc k # [Suc (Suc k)..<Suc (Suc k) + length rs]"
    by (simp add: upt_conv_Cons del: upt_Suc)
  have "normalizedBnf st' = normalizedBnf st @ zip [Suc k..<Suc k + length (r # rs)] (p # ps)"
    unfolding u using ih(3) by (simp add: st1_def sp del: upt_Suc)
  moreover have "map raw (p # ps) = r # rs" using rawp ih(4) by simp
  ultimately have "\<exists>ps'. normalizedBnf st' =
      normalizedBnf st @ zip [Suc k..<Suc k + length (r # rs)] ps' \<and> map raw ps' = r # rs"
    by (intro exI [where x = "p # ps"] conjI)
  moreover have "ns_startSymbol st' = ns_startSymbol st" using ih(1) by (simp add: st1_def)
  moreover have "ns_isAugmentedProduction st' = ns_isAugmentedProduction st"
    using ih(2) by (simp add: st1_def)
  ultimately show ?case by blast
qed

lemma normalizeLoop_first:
  assumes "normalizeLoop 0 (r # rs) st = Inr st'" and "normalizedBnf st = []"
  shows "\<exists>p0 p aug ps.
     Production_normalize r = Inr p0 \<and>
     p = (if falsy (getSymbol (LHS p0)) then setLHS (currentNonTerminal st) p0 else p0) \<and>
     Production_normalize
       (templateStr (getSymbol (LHS p)) @ [39] @ js '' -> '' @ templateStr (getSymbol (LHS p))) = Inr aug \<and>
     ns_startSymbol st' = getSymbol (LHS p) \<and>
     ns_isAugmentedProduction st' = Some aug \<and>
     normalizedBnf st' = (0, aug) # zip [1..<Suc (length (r # rs))] (p # ps) \<and>
     map raw (p # ps) = r # rs"
proof -
  from assms(1) obtain p0 where p0: "Production_normalize r = Inr p0"
    by (cases "Production_normalize r") simp_all
  define p where "p = (if falsy (getSymbol (LHS p0)) then setLHS (currentNonTerminal st) p0 else p0)"
  define st1 where "st1 = (\<lambda>aug. \<lparr> normalizedBnf = [(0, aug), (Suc 0, p)],
                            currentNonTerminal = getSymbol (LHS p),
                            ns_startSymbol = getSymbol (LHS p),
                            ns_isAugmentedProduction = Some aug \<rparr>)"
  from assms p0 obtain aug where
    aug: "Production_normalize
            (templateStr (getSymbol (LHS p)) @ [39] @ js '' -> '' @ templateStr (getSymbol (LHS p)))
          = Inr aug"
    and loop: "normalizeLoop (Suc 0) rs (st1 aug) = Inr st'"
    by (auto simp: Let_def p_def st1_def split: sum.splits)
  have keys: "map fst (normalizedBnf (st1 aug)) = [0..<Suc (Suc 0)]"
    by (simp add: st1_def)
  from normalizeLoop_table [OF _ keys loop] obtain ps where
    t: "ns_startSymbol st' = ns_startSymbol (st1 aug)"
       "ns_isAugmentedProduction st' = ns_isAugmentedProduction (st1 aug)"
       "normalizedBnf st' = normalizedBnf (st1 aug) @ zip [Suc (Suc 0)..<Suc (Suc 0) + length rs] ps"
       "map raw ps = rs"
    by auto
  have u: "[1..<Suc (length (r # rs))] = Suc 0 # [Suc (Suc 0)..<Suc (Suc 0) + length rs]"
    by (simp add: upt_conv_Cons del: upt_Suc)
  have "normalizedBnf st' = (0, aug) # zip [1..<Suc (length (r # rs))] (p # ps)"
    unfolding u using t(3) by (simp add: st1_def del: upt_Suc)
  moreover have "raw p = r" using normalize_raw [OF p0] by (simp add: p_def setLHS_def)
  ultimately show ?thesis
    using p0 aug t(1,2,4) by (auto simp: st1_def p_def)
qed

lemma map_of_filter_distinct:
  "distinct (map fst al) \<Longrightarrow>
   map_of (filter (\<lambda>(k, v). P v) al) k =
     (case map_of al k of None \<Rightarrow> None | Some v \<Rightarrow> if P v then Some v else None)"
proof (induction al)
  case Nil
  then show ?case by simp
next
  case (Cons a al)
  obtain k' v' where a: "a = (k', v')" by (cases a)
  show ?case
  proof (cases "k = k'")
    case True
    with Cons.prems a have "k \<notin> fst ` set al" by auto
    then have "k \<notin> fst ` set (filter (\<lambda>(k, v). P v) al)" by auto
    then have "map_of (filter (\<lambda>(k, v). P v) al) k = None"
      by (simp add: map_of_eq_None_iff)
    then show ?thesis using True a by simp
  next
    case False
    then show ?thesis using Cons a by simp
  qed
qed

lemma new_Grammar_nonempty:
  assumes "new_Grammar inp = Inr g" and "toArray inp = r # rs"
  shows "\<exists>p0 p aug ps.
     Production_normalize r = Inr p0 \<and>
     p = (if falsy (getSymbol (LHS p0)) then setLHS None p0 else p0) \<and>
     Production_normalize
       (templateStr (getSymbol (LHS p)) @ [39] @ js '' -> '' @ templateStr (getSymbol (LHS p))) = Inr aug \<and>
     startSymbol g = getSymbol (LHS p) \<and>
     isAugmentedProduction g = Some aug \<and>
     g_bnf g = (0, aug) # zip [1..<Suc (length (r # rs))] (p # ps) \<and>
     map raw (p # ps) = r # rs"
proof -
  define st0 where "st0 = \<lparr> normalizedBnf = [], currentNonTerminal = None,
         ns_startSymbol = None, ns_isAugmentedProduction = None \<rparr>"
  from assms obtain st' where loop: "normalizeLoop 0 (r # rs) st0 = Inr st'"
    and g: "g = \<lparr> originalBnf = inp, isAugmentedProduction = ns_isAugmentedProduction st',
                g_bnf = normalizedBnf st', startSymbol = ns_startSymbol st' \<rparr>"
    by (auto simp: new_Grammar_def normalizeBnf_def st0_def split: sum.splits)
  have nb: "normalizedBnf st0 = []" and c: "currentNonTerminal st0 = None"
    by (simp_all add: st0_def)
  have sel: "startSymbol g = ns_startSymbol st'"
    "isAugmentedProduction g = ns_isAugmentedProduction st'"
    "g_bnf g = normalizedBnf st'"
    by (simp_all add: g)
  show ?thesis
    unfolding sel using normalizeLoop_first [OF loop nb, unfolded c] .
qed

lemma new_Grammar_empty:
  assumes "new_Grammar inp = Inr g" and "toArray inp = []"
  shows "g_bnf g = [] \<and> isAugmentedProduction g = None \<and> startSymbol g = None"
  using assms by (auto simp: new_Grammar_def normalizeBnf_def)

lemma new_Grammar_keys:
  assumes "new_Grammar inp = Inr g"
  shows "map fst (g_bnf g) = (if toArray inp = [] then [] else [0..<Suc (length (toArray inp))])"
proof (cases "toArray inp")
  case Nil
  then show ?thesis using new_Grammar_empty [OF assms] by simp
next
  case (Cons r rs)
  from new_Grammar_nonempty [OF assms Cons] obtain aug p ps where
    t: "g_bnf g = (0, aug) # zip [1..<Suc (length (r # rs))] (p # ps)" "map raw (p # ps) = r # rs"
    by (elim exE conjE)
  from t(2) have "length (p # ps) = length (r # rs)" by (metis length_map)
  then have "map fst (zip [1..<Suc (length (r # rs))] (p # ps)) = [1..<Suc (length (r # rs))]"
    by (simp del: upt_Suc)
  then have "map fst (g_bnf g) = 0 # [1..<Suc (length (r # rs))]"
    by (simp add: t(1) del: upt_Suc)
  also have "\<dots> = [0..<Suc (length (r # rs))]"
    by (simp add: upt_conv_Cons del: upt_Suc)
  finally show ?thesis using Cons by simp
qed

lemma new_Grammar_numbered:
  assumes "new_Grammar inp = Inr g" and "1 \<le> k" and "k \<le> length (toArray inp)"
  shows "\<exists>p. map_of (g_bnf g) k = Some p \<and> raw p = toArray inp ! (k - 1)"
proof -
  from assms(2,3) obtain r rs where Cons: "toArray inp = r # rs"
    by (cases "toArray inp") auto
  from new_Grammar_nonempty [OF assms(1) Cons] obtain aug p ps where
    t: "g_bnf g = (0, aug) # zip [1..<Suc (length (r # rs))] (p # ps)" "map raw (p # ps) = r # rs"
    by (elim exE conjE)
  from t(2) have len: "length (p # ps) = length (r # rs)" by (metis length_map)
  have i: "k - 1 < length (p # ps)" using assms(2,3) Cons len by simp
  have "map_of (zip [1..<Suc (length (r # rs))] (p # ps)) ([1..<Suc (length (r # rs))] ! (k - 1))
          = Some ((p # ps) ! (k - 1))"
    using len i by (intro map_of_zip_nth) (simp_all del: upt_Suc)
  moreover have "[1..<Suc (length (r # rs))] ! (k - 1) = k"
    using assms(2,3) Cons by (simp del: upt_Suc)
  ultimately have "map_of (g_bnf g) k = Some ((p # ps) ! (k - 1))"
    using assms(2) by (simp add: t(1) del: upt_Suc)
  moreover have "raw ((p # ps) ! (k - 1)) = (r # rs) ! (k - 1)"
    using t(2) i by (metis nth_map)
  ultimately show ?thesis using Cons by simp
qed

lemma exampleText_lines:
  "toArray (BnfText exampleText) = [js ''  S -> A A'', js ''  A -> \"a\" A'', js ''     | \"b\"'']"
  by (simp add: toArray_def exampleText_def js_def trim_def isWhiteSpace_def)

lemma exampleGrammar_loaded: "new_Grammar (BnfText exampleText) = Inr exampleGrammar"
  by (simp add: new_Grammar_def normalizeBnf_def exampleText_lines)
     (simp add: Production_normalize_def js_def
      ARROW_def BAR_def trim_def isWhiteSpace_def falsy_def templateStr_def EPSILON_def
      exampleGrammar_def exampleProduction1_def exampleProduction2_def exampleProduction3_def
      exampleAugmented_def QUOTE_def Let_def setLHS_def exampleText_def)

text \<open>
  Claim C8. On a loaded grammar, \<^verbatim>\<open>getProductionsForSymbol(symbol)\<close> is the scan of the
  whole table that keeps, in order and under their own numbers, exactly the productions
  whose left-hand side is the symbol: looking a number up in the result gives the
  production of that number when its left-hand side is the symbol, and nothing otherwise.
  The table of a non-empty grammar has the keys 0 to N; key 0 is the augmented production
  and key k, for k from 1 to N, is the production of the k-th line. The augmented
  production is in the result exactly when the symbol asked for is its own left-hand
  side. The function reads the grammar and nothing else: it keeps no cache.
\<close>

theorem getProductionsForSymbol_spec:
  assumes "new_Grammar inp = Inr g"
  shows "getProductionsForSymbol g symbol =
           filter (\<lambda>(k, p). getSymbol (LHS p) = symbol) (g_bnf g) \<and>
         (\<forall>k. map_of (getProductionsForSymbol g symbol) k =
            (case getProduction g k of
               None \<Rightarrow> None
             | Some p \<Rightarrow> if getSymbol (LHS p) = symbol then Some p else None)) \<and>
         map fst (g_bnf g) =
           (if toArray inp = [] then [] else [0..<Suc (length (toArray inp))]) \<and>
         (toArray inp \<noteq> [] \<longrightarrow> getProduction g 0 = getAugmentedProduction g) \<and>
         (\<forall>k. 1 \<le> k \<and> k \<le> length (toArray inp) \<longrightarrow>
            (\<exists>p. getProduction g k = Some p \<and> raw p = toArray inp ! (k - 1))) \<and>
         ((\<exists>p. (0, p) \<in> set (getProductionsForSymbol g symbol)) \<longleftrightarrow>
            (\<exists>a. getAugmentedProduction g = Some a \<and> getSymbol (LHS a) = symbol))"
proof -
  have keys: "map fst (g_bnf g) =
           (if toArray inp = [] then [] else [0..<Suc (length (toArray inp))])"
    by (rule new_Grammar_keys [OF assms])
  then have d: "distinct (map fst (g_bnf g))" by (simp del: upt_Suc)
  have A: "getProductionsForSymbol g symbol =
           filter (\<lambda>(k, p). getSymbol (LHS p) = symbol) (g_bnf g)"
    by (simp add: getProductionsForSymbol_def isSymbol_def)
  have B: "\<forall>k. map_of (getProductionsForSymbol g symbol) k =
            (case getProduction g k of
               None \<Rightarrow> None
             | Some p \<Rightarrow> if getSymbol (LHS p) = symbol then Some p else None)"
    unfolding A getProduction_def
    using map_of_filter_distinct [OF d, of "\<lambda>p. getSymbol (LHS p) = symbol"] by simp
  have C: "toArray inp \<noteq> [] \<longrightarrow> getProduction g 0 = getAugmentedProduction g"
  proof
    assume "toArray inp \<noteq> []"
    then obtain r rs where Cons: "toArray inp = r # rs" by (cases "toArray inp") auto
    from new_Grammar_nonempty [OF assms Cons] show "getProduction g 0 = getAugmentedProduction g"
      by (auto simp: getProduction_def getAugmentedProduction_def)
  qed
  have D: "\<forall>k. 1 \<le> k \<and> k \<le> length (toArray inp) \<longrightarrow>
            (\<exists>p. getProduction g k = Some p \<and> raw p = toArray inp ! (k - 1))"
    using new_Grammar_numbered [OF assms] by (simp add: getProduction_def)
  have E: "(\<exists>p. (0, p) \<in> set (getProductionsForSymbol g symbol)) \<longleftrightarrow>
            (\<exists>a. getAugmentedProduction g = Some a \<and> getSymbol (LHS a) = symbol)"
  proof (cases "toArray inp")
    case Nil
    then show ?thesis using new_Grammar_empty [OF assms]
      by (simp add: A getAugmentedProduction_def)
  next
    case (Cons r rs)
    then have g0: "getProduction g 0 = getAugmentedProduction g" using C by simp
    have "(\<exists>p. (0, p) \<in> set (getProductionsForSymbol g symbol)) \<longleftrightarrow>
          (\<exists>p. map_of (getProductionsForSymbol g symbol) 0 = Some p)"
      using d unfolding A
      by (metis (no_types, lifting) distinct_map_filter map_of_eq_Some_iff map_of_SomeD)
    also have "\<dots> \<longleftrightarrow> (\<exists>a. getAugmentedProduction g = Some a \<and> getSymbol (LHS a) = symbol)"
      using B g0 by (auto split: option.splits if_splits)
    finally show ?thesis .
  qed
  from A B keys C D E show ?thesis by blast
qed

theorem getProductionsForSymbol_spec_witness:
  "new_Grammar (BnfText exampleText) = Inr exampleGrammar \<and>
   getProductionsForSymbol exampleGrammar (Some (js ''A'')) =
     [(2, exampleProduction2), (3, exampleProduction3)] \<and>
   map_of (getProductionsForSymbol exampleGrammar (Some (js ''A''))) 3 = Some exampleProduction3 \<and>
   map_of (getProductionsForSymbol exampleGrammar (Some (js ''A''))) 1 = None \<and>
   map fst (g_bnf exampleGrammar) = [0, 1, 2, 3] \<and>
   \<not> (\<exists>p. (0, p) \<in> set (getProductionsForSymbol exampleGrammar (Some (js ''A''))))"
proof -
  note t = getProductionsForSymbol_spec [OF exampleGrammar_loaded, of "Some (js ''A'')"]
  have f: "filter (\<lambda>(k, p). getSymbol (LHS p) = Some (js ''A'')) (g_bnf exampleGrammar) =
        [(2, exampleProduction2), (3, exampleProduction3)]"
    by (simp add: exampleGrammar_def exampleAugmented_def exampleProduction1_def
        exampleProduction2_def exampleProduction3_def js_def)
  have a: "getAugmentedProduction exampleGrammar = Some exampleAugmented"
    by (simp add: getAugmentedProduction_def exampleGrammar_def)
  have l: "getSymbol (LHS exampleAugmented) \<noteq> Some (js ''A'')"
    by (simp add: exampleAugmented_def js_def)
  from t f have 1: "getProductionsForSymbol exampleGrammar (Some (js ''A'')) =
     [(2, exampleProduction2), (3, exampleProduction3)]" by simp
  from t have 2: "map fst (g_bnf exampleGrammar) = [0, 1, 2, 3]"
    by (simp add: exampleText_lines)
  have E: "(\<exists>p. (0, p) \<in> set (getProductionsForSymbol exampleGrammar (Some (js ''A'')))) \<longleftrightarrow>
      (\<exists>a. getAugmentedProduction exampleGrammar = Some a \<and> getSymbol (LHS a) = Some (js ''A''))"
    using t by (elim conjE)
  have "\<not> (\<exists>a. getAugmentedProduction exampleGrammar = Some a \<and> getSymbol (LHS a) = Some (js ''A''))"
    using a l by simp
  then have 3: "\<not> (\<exists>p. (0, p) \<in> set (getProductionsForSymbol exampleGrammar (Some (js ''A''))))"
    unfolding E .
  from 1 have 4: "map_of (getProductionsForSymbol exampleGrammar (Some (js ''A''))) 3 = Some exampleProduction3"
    "map_of (getProductionsForSymbol exampleGrammar (Some (js ''A''))) 1 = None"
    by simp_all
  from exampleGrammar_loaded 1 2 3 4 show ?thesis by blast
qed

lemma normalize_LHS_no_ARROW:
  assumes "Production_normalize r = Inr p"
  shows "\<exists>t. getSymbol (LHS p) = Some t \<and> \<not> contains ARROW t"
proof (cases "contains ARROW r")
  case True
  from first_ARROW [OF True] obtain l r' where r: "r = l @ ARROW @ r'" and nl: "\<not> contains ARROW l"
    by blast
  have sp: "splitStr ARROW [] r = l # splitStr ARROW [] r'"
    using splitStr_ARROW_first [OF nl, of "[]" r'] r by simp
  have "getSymbol (LHS p) = Some (trim l)"
    using assms True sp by (auto simp: Production_normalize_def Let_def split: list.splits)
  moreover have "\<not> contains ARROW (trim l)"
    using nl trim_sublist [of l] sublist_order.order_trans unfolding contains_sublist by blast
  ultimately show ?thesis by blast
next
  case False
  from assms False obtain s0 rest where sp: "splitStr BAR [] r = s0 # rest"
    and l: "getSymbol (LHS p) = Some (trim s0)"
    by (auto simp: Production_normalize_def Let_def split: list.splits)
  have "s0 \<in> set (splitStr BAR [] r)" using sp by simp
  from splitStr_pieces_sublist [OF this] have "sublist s0 r" by simp
  then have "sublist (trim s0) r"
    using trim_sublist [of s0] sublist_order.order_trans by blast
  then have "\<not> contains ARROW (trim s0)"
    using False sublist_order.order_trans unfolding contains_sublist by blast
  with l show ?thesis by blast
qed

lemma no_ARROW_snoc:
  "\<not> contains ARROW S \<Longrightarrow> \<not> contains ARROW (S @ [39, 32])"
proof (induction S)
  case Nil
  show ?case by (simp add: ARROW_def)
next
  case (Cons c cs)
  from Cons.prems have np: "\<not> prefix ARROW (c # cs)" and nc: "\<not> contains ARROW cs"
    by simp_all
  have "\<not> prefix ARROW (c # cs @ [39, 32])"
    using np by (cases cs) (auto simp: prefix_ARROW)
  then show ?case using Cons.IH [OF nc] by simp
qed

lemma trim_hd_last:
  assumes "trim s \<noteq> []"
  shows "\<not> isWhiteSpace (hd (trim s)) \<and> \<not> isWhiteSpace (last (trim s))"
proof -
  define d where "d = dropWhile isWhiteSpace s"
  define e where "e = dropWhile isWhiteSpace (rev d)"
  have t: "trim s = rev e" by (simp add: trim_def d_def e_def)
  with assms have ne: "e \<noteq> []" by simp
  then have "\<not> isWhiteSpace (hd e)" unfolding e_def by (rule hd_dropWhile)
  then have l: "\<not> isWhiteSpace (last (trim s))" using ne by (simp add: t last_rev)
  from ne have dne: "d \<noteq> []" by (auto simp: e_def)
  then have hd: "\<not> isWhiteSpace (hd d)" unfolding d_def by (rule hd_dropWhile)
  have "hd d \<in> set (rev d)" using dne by simp
  then have "last e = last (rev d)" unfolding e_def using hd by (rule dropWhile_last)
  then have "hd (trim s) = hd d" using ne dne by (simp add: t hd_rev last_rev)
  with hd l show ?thesis by simp
qed

lemma join_Cons: "join sep (x # xs) = x @ concat (map ((@) sep) xs)"
  by (induction xs arbitrary: x) simp_all

lemma concat_rhsSymbols:
  "concat (map ((@) [32]) (map (\<lambda>symbol. joinStr (getSymbol symbol)) (rhsSymbols toks))) =
   concat (map ((@) [32]) toks)"
  by (induction toks rule: rhsSymbols.induct) (simp_all add: joinStr_def QUOTE_def js_def)

lemma splitWs_nonempty: "splitWs acc s \<noteq> []"
  by (induction acc s rule: splitWs.induct) simp_all

lemma rhsSymbols_hd:
  "toks \<noteq> [] \<Longrightarrow> join [32] (map (\<lambda>symbol. joinStr (getSymbol symbol)) (rhsSymbols toks)) = join [32] toks"
proof (induction toks rule: rhsSymbols.induct)
  case 1
  then show ?case by simp
next
  case (2 a)
  then show ?case by (simp add: joinStr_def)
next
  case (3 a b rest)
  show ?case
  proof (cases "a = QUOTE \<and> b = QUOTE")
    case True
    then have "rhsSymbols (a # b # rest) = GrammarSymbol (Some (js ''\" \"'')) # rhsSymbols rest"
      by simp
    then show ?thesis
      using concat_rhsSymbols [of rest] True
      by (simp add: join_Cons joinStr_def QUOTE_def js_def del: rhsSymbols.simps)
  next
    case False
    then have "rhsSymbols (a # b # rest) = GrammarSymbol (Some a) # rhsSymbols (b # rest)"
      by auto
    then show ?thesis
      using concat_rhsSymbols [of "b # rest"]
      by (simp add: join_Cons joinStr_def del: rhsSymbols.simps)
  qed
qed

lemma normalize_augmented_tokens:
  assumes "S \<noteq> []" and "\<not> contains ARROW S"
    and "\<not> isWhiteSpace (hd S)" and "\<not> isWhiteSpace (last S)"
  shows "Production_normalize (S @ [39] @ js '' -> '' @ S) =
     Inr \<lparr> raw = S @ [39] @ js '' -> '' @ S, LHS = GrammarSymbol (Some (S @ [39])),
           RHS = rhsSymbols (splitWs [] S) \<rparr>"
proof -
  have eq: "S @ [39] @ js '' -> '' @ S = (S @ [39, 32]) @ ARROW @ (32 # S)"
    by (simp add: js_def ARROW_def)
  have a: "\<not> contains ARROW (S @ [39, 32])" using assms(2) by (rule no_ARROW_snoc)
  have b: "\<not> contains ARROW (32 # S)"
    using assms(2) by (simp add: prefix_ARROW)
  have "trim ([] @ (S @ [39]) @ [32]) = S @ [39]"
    using assms(1,3) by (intro trim_ws_around) (simp_all add: isWhiteSpace_def)
  then have t1: "trim (S @ [39, 32]) = S @ [39]" by simp
  have "trim ([32] @ S @ []) = S"
    using assms(1,3,4) by (intro trim_ws_around) (simp_all add: isWhiteSpace_def)
  then have t2: "trim (32 # S) = S" by simp
  show ?thesis
    unfolding eq using normalize_ARROW [OF a b] assms(1) by (simp add: t1 t2)
qed

lemma templateStr_undefined_trimmed:
  "\<not> isWhiteSpace (hd (templateStr None)) \<and> \<not> isWhiteSpace (last (templateStr None))"
  by (simp add: templateStr_def js_def isWhiteSpace_def)

lemma normalize_LHS_trimmed:
  assumes "Production_normalize r = Inr p"
  shows "\<exists>s0. getSymbol (LHS p) = Some (trim s0)"
  using assms by (auto simp: Production_normalize_def Let_def split: list.splits)

lemma templateStr_undefined_plain:
  "templateStr None \<noteq> [] \<and> \<not> contains ARROW (templateStr None)"
  by (simp add: templateStr_def js_def ARROW_def)

lemma augmented_kernel_nonempty:
  assumes "new_Grammar inp = Inr g" and "toArray inp \<noteq> []"
  shows "\<exists>p1 aug.
           getProduction g 1 = Some p1 \<and> getSymbol (LHS p1) = startSymbol g \<and>
           getAugmentedProduction g = Some aug \<and>
           (\<forall>s. serialize (itemObjs (snd (new_LRItem aug 0 g s)) ! fst (new_LRItem aug 0 g s)) =
                  templateStr (startSymbol g) @ [39] @ js '' -> '' @ DOT @ js '' '' @
                  join (js '' '') (splitWs [] (templateStr (startSymbol g)))) \<and>
           ((\<forall>s. serialize (itemObjs (snd (new_LRItem aug 0 g s)) ! fst (new_LRItem aug 0 g s)) =
                  templateStr (startSymbol g) @ [39] @ js '' -> '' @ DOT @ js '' '' @
                  templateStr (startSymbol g)) \<longleftrightarrow>
            join (js '' '') (splitWs [] (templateStr (startSymbol g))) =
              templateStr (startSymbol g)) \<and>
           ((\<forall>c\<in>set (templateStr (startSymbol g)). \<not> isWhiteSpace c) \<longrightarrow>
            join (js '' '') (splitWs [] (templateStr (startSymbol g))) =
              templateStr (startSymbol g))"
proof -
  from assms(2) obtain r rs where Cons: "toArray inp = r # rs" by (cases "toArray inp") auto
  from new_Grammar_nonempty [OF assms(1) Cons] obtain p0 p aug ps where
    p0: "Production_normalize r = Inr p0"
    and p: "p = (if falsy (getSymbol (LHS p0)) then setLHS None p0 else p0)"
    and aug: "Production_normalize
       (templateStr (getSymbol (LHS p)) @ [39] @ js '' -> '' @ templateStr (getSymbol (LHS p))) = Inr aug"
    and st: "startSymbol g = getSymbol (LHS p)"
    and ia: "isAugmentedProduction g = Some aug"
    and tb: "g_bnf g = (0, aug) # zip [1..<Suc (length (r # rs))] (p # ps)"
    by (elim exE conjE)
  define S where "S = templateStr (startSymbol g)"
  define T where "T = join (js '' '') (splitWs [] S)"
  have S: "S \<noteq> [] \<and> \<not> contains ARROW S \<and> \<not> isWhiteSpace (hd S) \<and> \<not> isWhiteSpace (last S)"
  proof (cases "falsy (getSymbol (LHS p0))")
    case True
    then have "startSymbol g = None" using st p by (simp add: setLHS_def)
    then show ?thesis
      using templateStr_undefined_plain templateStr_undefined_trimmed by (simp add: S_def)
  next
    case False
    from normalize_LHS_no_ARROW [OF p0] obtain t where t: "getSymbol (LHS p0) = Some t" "\<not> contains ARROW t"
      by blast
    from normalize_LHS_trimmed [OF p0] t(1) obtain s0 where s0: "t = trim s0" by auto
    from False t(1) have "t \<noteq> []" by (simp add: falsy_def)
    then have "\<not> isWhiteSpace (hd t) \<and> \<not> isWhiteSpace (last t)"
      unfolding s0 by (rule trim_hd_last)
    moreover have "S = t" using False st p t(1) by (simp add: S_def templateStr_def)
    ultimately show ?thesis using t(2) \<open>t \<noteq> []\<close> by simp
  qed
  have augeq: "aug = \<lparr> raw = S @ [39] @ js '' -> '' @ S, LHS = GrammarSymbol (Some (S @ [39])),
           RHS = rhsSymbols (splitWs [] S) \<rparr>"
    using normalize_augmented_tokens [of S] S aug st by (simp add: S_def)
  obtain t ts where toks: "splitWs [] S = t # ts"
    using splitWs_nonempty [of "[]" S] by (cases "splitWs [] S") auto
  have "join [32] (DOT # map (\<lambda>symbol. joinStr (getSymbol symbol)) (rhsSymbols (splitWs [] S))) =
        DOT @ concat (map ((@) [32]) (splitWs [] S))"
    using concat_rhsSymbols [of "splitWs [] S"] by (simp only: join_Cons)
  also have "\<dots> = DOT @ [32] @ join [32] (splitWs [] S)"
    by (simp add: toks join_Cons)
  finally have j: "join [32] (DOT # map (\<lambda>symbol. joinStr (getSymbol symbol))
                      (rhsSymbols (splitWs [] S))) = DOT @ [32] @ join [32] (splitWs [] S)" .
  have key: "keyForItem aug 0 = S @ [39] @ js '' -> '' @ DOT @ js '' '' @ T"
    unfolding augeq T_def using j
    by (simp add: keyForItem_def templateStr_def js_def)
  have "map_of (g_bnf g) 1 = Some p"
    unfolding tb by (simp add: upt_conv_Cons del: upt_Suc)
  then have A: "getProduction g 1 = Some p \<and> getSymbol (LHS p) = startSymbol g"
    using st by (simp add: getProduction_def)
  have B: "getAugmentedProduction g = Some aug" using ia by (simp add: getAugmentedProduction_def)
  have ser: "\<And>s. serialize (itemObjs (snd (new_LRItem aug 0 g s)) ! fst (new_LRItem aug 0 g s)) =
                keyForItem aug 0"
    by (simp add: serialize_def new_LRItem_def)
  have C: "\<forall>s. serialize (itemObjs (snd (new_LRItem aug 0 g s)) ! fst (new_LRItem aug 0 g s)) =
                  S @ [39] @ js '' -> '' @ DOT @ js '' '' @ T"
    using key ser by simp
  have D: "(\<forall>s. serialize (itemObjs (snd (new_LRItem aug 0 g s)) ! fst (new_LRItem aug 0 g s)) =
                  S @ [39] @ js '' -> '' @ DOT @ js '' '' @ S) \<longleftrightarrow> T = S"
    using C by simp
  have E: "(\<forall>c\<in>set S. \<not> isWhiteSpace c) \<longrightarrow> T = S"
  proof
    assume "\<forall>c\<in>set S. \<not> isWhiteSpace c"
    from splitWs_no_ws [OF this, of "[]"] show "T = S" by (simp add: T_def)
  qed
  from A B C D E show ?thesis unfolding S_def T_def by (intro exI [of _ p] exI [of _ aug] conjI) simp_all
qed



text \<open>
  Claim C6, as the program has it. The augmented production is parsed again from the text
  of the template, so its right-hand side is the list of tokens of the start symbol. For
  every grammar with at least one production, the key of the item over the augmented
  production at dot position 0 is therefore: the start symbol, an apostrophe, the arrow,
  the dot, and the tokens of the start symbol joined by single blanks. That is the start
  symbol itself exactly when the tokens of the start symbol joined by single blanks give
  the start symbol back, and in particular whenever the start symbol holds no white
  space. The start symbol is the left-hand side of production 1; a start symbol that is
  \<^verbatim>\<open>undefined\<close> is rendered as that word. A grammar without productions has no
  augmented production to make an item of.
\<close>

theorem augmented_kernel_serialize:
  assumes "new_Grammar inp = Inr g"
  shows "(toArray inp = [] \<longrightarrow> getAugmentedProduction g = None) \<and>
         (toArray inp \<noteq> [] \<longrightarrow>
          (\<exists>p1 aug.
           getProduction g 1 = Some p1 \<and> getSymbol (LHS p1) = startSymbol g \<and>
           getAugmentedProduction g = Some aug \<and>
           (\<forall>s. serialize (itemObjs (snd (new_LRItem aug 0 g s)) ! fst (new_LRItem aug 0 g s)) =
                  templateStr (startSymbol g) @ [39] @ js '' -> '' @ DOT @ js '' '' @
                  join (js '' '') (splitWs [] (templateStr (startSymbol g)))) \<and>
           ((\<forall>s. serialize (itemObjs (snd (new_LRItem aug 0 g s)) ! fst (new_LRItem aug 0 g s)) =
                  templateStr (startSymbol g) @ [39] @ js '' -> '' @ DOT @ js '' '' @
                  templateStr (startSymbol g)) \<longleftrightarrow>
            join (js '' '') (splitWs [] (templateStr (startSymbol g))) =
              templateStr (startSymbol g)) \<and>
           ((\<forall>c\<in>set (templateStr (startSymbol g)). \<not> isWhiteSpace c) \<longrightarrow>
            join (js '' '') (splitWs [] (templateStr (startSymbol g))) =
              templateStr (startSymbol g))))"
proof (intro conjI impI)
  assume "toArray inp = []"
  with new_Grammar_empty [OF assms] show "getAugmentedProduction g = None"
    by (simp add: getAugmentedProduction_def)
next
  assume "toArray inp \<noteq> []"
  with assms show "\<exists>p1 aug.
           getProduction g 1 = Some p1 \<and> getSymbol (LHS p1) = startSymbol g \<and>
           getAugmentedProduction g = Some aug \<and>
           (\<forall>s. serialize (itemObjs (snd (new_LRItem aug 0 g s)) ! fst (new_LRItem aug 0 g s)) =
                  templateStr (startSymbol g) @ [39] @ js '' -> '' @ DOT @ js '' '' @
                  join (js '' '') (splitWs [] (templateStr (startSymbol g)))) \<and>
           ((\<forall>s. serialize (itemObjs (snd (new_LRItem aug 0 g s)) ! fst (new_LRItem aug 0 g s)) =
                  templateStr (startSymbol g) @ [39] @ js '' -> '' @ DOT @ js '' '' @
                  templateStr (startSymbol g)) \<longleftrightarrow>
            join (js '' '') (splitWs [] (templateStr (startSymbol g))) =
              templateStr (startSymbol g)) \<and>
           ((\<forall>c\<in>set (templateStr (startSymbol g)). \<not> isWhiteSpace c) \<longrightarrow>
            join (js '' '') (splitWs [] (templateStr (startSymbol g))) =
              templateStr (startSymbol g))"
    by (rule augmented_kernel_nonempty)
qed

theorem augmented_kernel_serialize_witness:
  "new_Grammar (BnfText exampleText) = Inr exampleGrammar \<and>
   toArray (BnfText exampleText) \<noteq> [] \<and>
   templateStr (startSymbol exampleGrammar) = js ''S'' \<and>
   getAugmentedProduction exampleGrammar = Some exampleAugmented \<and>
   serialize (itemObjs (snd (new_LRItem exampleAugmented 0 exampleGrammar emptyStore)) ! 0) =
     js ''S'' @ [39] @ js '' -> '' @ DOT @ js '' S''"
proof -
  have a: "toArray (BnfText exampleText) \<noteq> []" by (simp add: exampleText_lines)
  have c: "getAugmentedProduction exampleGrammar = Some exampleAugmented"
    by (simp add: getAugmentedProduction_def exampleGrammar_def)
  have d: "fst (new_LRItem exampleAugmented 0 exampleGrammar emptyStore) = 0"
    by (simp add: new_LRItem_def emptyStore_def)
  have e: "templateStr (startSymbol exampleGrammar) = js ''S''"
    by (simp add: exampleGrammar_def templateStr_def)
  have f: "join (js '' '') (splitWs [] (js ''S'')) = js ''S''"
    by (simp add: js_def isWhiteSpace_def)
  from augmented_kernel_serialize [OF exampleGrammar_loaded, THEN conjunct2, THEN mp, OF a]
  obtain aug where
    g: "getAugmentedProduction exampleGrammar = Some aug"
    and h: "\<forall>s. serialize (itemObjs (snd (new_LRItem aug 0 exampleGrammar s)) !
               fst (new_LRItem aug 0 exampleGrammar s)) =
             templateStr (startSymbol exampleGrammar) @ [39] @ js '' -> '' @ DOT @ js '' '' @
             join (js '' '') (splitWs [] (templateStr (startSymbol exampleGrammar)))"
    by (elim exE conjE)
  from g c have "aug = exampleAugmented" by simp
  with h have "serialize (itemObjs (snd (new_LRItem exampleAugmented 0 exampleGrammar emptyStore)) !
               fst (new_LRItem exampleAugmented 0 exampleGrammar emptyStore)) =
             templateStr (startSymbol exampleGrammar) @ [39] @ js '' -> '' @ DOT @ js '' '' @
             join (js '' '') (splitWs [] (templateStr (startSymbol exampleGrammar)))"
    by blast
  then have "serialize (itemObjs (snd (new_LRItem exampleAugmented 0 exampleGrammar emptyStore)) ! 0) =
     js ''S'' @ [39] @ js '' -> '' @ DOT @ js '' S''"
    unfolding d e f by (simp add: js_def)
  with exampleGrammar_loaded a e c show ?thesis by (intro conjI)
qed

lemma blanksGrammar_loaded: "new_Grammar (BnfArray [js ''A  B -> c'']) = Inr blanksGrammar"
  by (simp add: new_Grammar_def normalizeBnf_def toArray_def Production_normalize_def js_def
      ARROW_def BAR_def trim_def isWhiteSpace_def falsy_def templateStr_def EPSILON_def
      blanksGrammar_def blanksProduction_def blanksAugmented_def QUOTE_def Let_def)


text \<open>
  Claim C6 as it is written fails on a start symbol with two blanks in it: the tokens are
  joined by one.
\<close>

theorem start_symbol_blanks_counterexample:
  "new_Grammar (BnfArray [js ''A  B -> c'']) = Inr blanksGrammar \<and>
   startSymbol blanksGrammar = Some (js ''A  B'') \<and>
   getAugmentedProduction blanksGrammar = Some blanksAugmented \<and>
   serialize (itemObjs (snd (new_LRItem blanksAugmented 0 blanksGrammar emptyStore)) ! 0) =
     js ''A  B'' @ [39] @ js '' -> '' @ DOT @ js '' A B'' \<and>
   serialize (itemObjs (snd (new_LRItem blanksAugmented 0 blanksGrammar emptyStore)) ! 0) \<noteq>
     js ''A  B'' @ [39] @ js '' -> '' @ DOT @ js '' A  B''"
  using blanksGrammar_loaded
  by (simp add: blanksGrammar_def getAugmentedProduction_def serialize_def new_LRItem_def
      emptyStore_def keyForItem_def blanksAugmented_def templateStr_def joinStr_def js_def DOT_def)


section \<open>Closures\<close>

text \<open>
  Claim C10. For every item whose symbol at the dot is the epsilon marker,
  \<^verbatim>\<open>shouldClosure()\<close> is true, the marker being unquoted; and when no production of the
  grammar has the marker as its left-hand side, \<^verbatim>\<open>closure()\<close> returns a new closure
  whose items are the kernel item alone, and stores it in the item.
\<close>

theorem epsilon_item_closure:
  assumes "i < length (itemObjs s)"
    and "getCurrentSymbol (itemObjs s ! i) = Some (GrammarSymbol (Some EPSILON))"
    and "\<forall>(k, p)\<in>set (g_bnf (item_grammar (itemObjs s ! i))). getSymbol (LHS p) \<noteq> Some EPSILON"
  shows "shouldClosure (itemObjs s ! i) = Inr True \<and>
         LRItem_closure (Suc n) i s =
           Some (Inr (Some (length (closureObjs s)),
             s\<lparr> closureObjs := closureObjs s @
                   [\<lparr> kernelItem = i, currentItem = i, items = [i],
                      closure_grammar = item_grammar (itemObjs s ! i) \<rparr>],
                itemObjs := (itemObjs s)
                   [i := (itemObjs s ! i)\<lparr> closure := Some (length (closureObjs s)) \<rparr>] \<rparr>))"
proof -
  have nf: "\<not> isFinal (itemObjs s ! i)"
    using assms(2) by (auto simp: getCurrentSymbol_def isFinal_def split: if_splits)
  have sc: "shouldClosure (itemObjs s ! i) = Inr True"
    using assms(2) nf
    by (simp add: shouldClosure_def isNonTerminal_def isTerminal_def EPSILON_def isQuote_def)
  have none: "getProductionsForSymbol (item_grammar (itemObjs s ! i)) (Some EPSILON) = []"
    using assms(3) by (auto simp: getProductionsForSymbol_def isSymbol_def filter_empty_conv)
  show ?thesis
    using sc assms(2) none
    by (simp add: LRItem_closure_def new_Closure_def allocClosure_def setClosure_def Let_def)
qed

theorem epsilon_item_closure_witness:
  "0 < length (itemObjs epsStore) \<and>
   getCurrentSymbol (itemObjs epsStore ! 0) = Some (GrammarSymbol (Some EPSILON)) \<and>
   getProductionsForSymbol (item_grammar (itemObjs epsStore ! 0)) (Some EPSILON) = [] \<and>
   shouldClosure (itemObjs epsStore ! 0) = Inr True \<and>
   (\<exists>s'. LRItem_closure 1 0 epsStore = Some (Inr (Some 0, s')) \<and>
         items (closureObjs s' ! 0) = [0] \<and> closure (itemObjs s' ! 0) = Some 0)"
proof -
  have a: "0 < length (itemObjs epsStore)" by (simp add: epsStore_items)
  have b: "getCurrentSymbol (itemObjs epsStore ! 0) = Some (GrammarSymbol (Some EPSILON))"
    by (simp add: epsStore_items getCurrentSymbol_def epsProduction_def)
  have c: "\<forall>(k, p)\<in>set (g_bnf (item_grammar (itemObjs epsStore ! 0))). getSymbol (LHS p) \<noteq> Some EPSILON"
    by (simp add: epsStore_items epsGrammar_def epsAugmented_def epsProduction_def EPSILON_def js_def)
  have d: "closureObjs epsStore = []"
    by (simp add: epsStore_def new_LRItem_def emptyStore_def)
  have e: "getProductionsForSymbol (item_grammar (itemObjs epsStore ! 0)) (Some EPSILON) = []"
    by (simp add: getProductionsForSymbol_def isSymbol_def epsStore_items epsGrammar_def
        epsAugmented_def epsProduction_def EPSILON_def js_def)
  from epsilon_item_closure [OF a b c, of 0] a b e show ?thesis
    by (simp add: d epsStore_items)
qed

section \<open>Sessions: what the program does to the store\<close>

lemma evolves_refl: "evolves s s"
  by (simp add: evolves_def)

lemma evolves_trans: "evolves s s1 \<Longrightarrow> evolves s1 s2 \<Longrightarrow> evolves s s2"
  unfolding evolves_def
  by (intro conjI allI impI) (auto; metis less_le_trans)+

lemma all_list_update: "\<forall>x\<in>set xs. P x \<Longrightarrow> P v \<Longrightarrow> \<forall>x\<in>set (xs[i := v]). P x"
proof
  fix x
  assume a: "\<forall>x\<in>set xs. P x" "P v" and "x \<in> set (xs[i := v])"
  then have "x \<in> insert v (set xs)" using set_update_subset_insert by fastforce
  with a show "P x" by auto
qed

lemma closure_refs_valid_mono: "closure_refs_valid n c \<Longrightarrow> n \<le> m \<Longrightarrow> closure_refs_valid m c"
  by (auto simp: closure_refs_valid_def)

lemma store_wf_closures:
  "store_wf s \<Longrightarrow> c < length (closureObjs s) \<Longrightarrow>
   closure_refs_valid (length (itemObjs s)) (closureObjs s ! c)"
  by (simp add: store_wf_def)

lemma store_wf_items: "store_wf s \<Longrightarrow> i < length (itemObjs s) \<Longrightarrow> item_ok (itemObjs s ! i)"
  by (simp add: store_wf_def)

lemma new_LRItem_wf:
  assumes "store_wf s" and "d \<le> length (RHS p)"
  shows "store_wf (snd (new_LRItem p d g s))"
proof -
  have rv: "registry_valid s" and rk: "registry_keyed s"
    using assms(1) by (simp_all add: store_wf_def)
  have "registry_valid (snd (new_LRItem p d g s))"
    using rv by (auto simp: registry_valid_def new_LRItem_def less_Suc_eq)
  moreover have "registry_keyed (snd (new_LRItem p d g s))"
    using rv rk by (auto simp: registry_valid_def registry_keyed_def new_LRItem_def nth_append)
  moreover have "\<forall>c\<in>set (closureObjs s). closure_refs_valid (Suc (length (itemObjs s))) c"
    using assms(1) closure_refs_valid_mono by (fastforce simp: store_wf_def)
  moreover have "item_ok \<lparr> production = p, dotPosition = d, item_grammar = g,
               closure = None, gotoPointer = None \<rparr>"
    using assms(2) by (simp add: item_ok_def)
  ultimately show ?thesis using assms(1) by (simp add: store_wf_def new_LRItem_def)
qed

lemma new_LRItem_evolves: "evolves s (snd (new_LRItem p d g s))"
  by (simp add: evolves_def new_LRItem_def nth_append)

lemma advance_unfold:
  "advance i s = Inr (k, s') \<Longrightarrow>
   \<not> isFinal (itemObjs s ! i) \<and> k = length (itemObjs s) \<and>
   s' = snd (new_LRItem (production (itemObjs s ! i)) (dotPosition (itemObjs s ! i) + 1)
              (item_grammar (itemObjs s ! i)) s)"
  by (auto simp: advance_def Let_def new_LRItem_def split: if_splits)

lemma pushItem_wf:
  assumes "store_wf s" and "c < length (closureObjs s)" and "a < length (itemObjs s)"
  shows "store_wf (pushItem c a s)"
proof -
  let ?v = "(closureObjs s ! c)\<lparr>items := items (closureObjs s ! c) @ [a], currentItem := a\<rparr>"
  have "closure_refs_valid (length (itemObjs s)) (closureObjs s ! c)"
    using assms(1,2) by (rule store_wf_closures)
  then have "closure_refs_valid (length (itemObjs s)) ?v"
    using assms(3) by (auto simp: closure_refs_valid_def)
  moreover have "\<forall>x\<in>set (closureObjs s). closure_refs_valid (length (itemObjs s)) x"
    using assms(1) by (simp add: store_wf_def)
  ultimately have "\<forall>x\<in>set ((closureObjs s)[c := ?v]). closure_refs_valid (length (itemObjs s)) x"
    by (intro all_list_update)
  then show ?thesis using assms(1)
    by (simp add: store_wf_def pushItem_def registry_valid_def registry_keyed_def)
qed

lemma item_update_wf:
  assumes "store_wf s" and "item_ok v"
    and "production v = production (itemObjs s ! i)"
    and "dotPosition v = dotPosition (itemObjs s ! i)"
  shows "store_wf (s\<lparr> itemObjs := (itemObjs s)[i := v] \<rparr>)"
proof -
  have "\<forall>x\<in>set ((itemObjs s)[i := v]). item_ok x"
    using assms(1,2) by (intro all_list_update) (simp_all add: store_wf_def)
  moreover have "registry_keyed (s\<lparr> itemObjs := (itemObjs s)[i := v] \<rparr>)"
    unfolding registry_keyed_def
  proof (intro allI impI)
    fix key a
    assume "LRItemsRegistry (s\<lparr> itemObjs := (itemObjs s)[i := v] \<rparr>) key = Some a"
    then have k: "LRItemsRegistry s key = Some a" by simp
    then have a: "a < length (itemObjs s)"
      and old: "serialize (itemObjs s ! a) = key \<and> dotPosition (itemObjs s ! a) = 0"
      using assms(1) by (auto simp: store_wf_def registry_valid_def registry_keyed_def)
    show "serialize (itemObjs (s\<lparr> itemObjs := (itemObjs s)[i := v] \<rparr>) ! a) = key \<and>
          dotPosition (itemObjs (s\<lparr> itemObjs := (itemObjs s)[i := v] \<rparr>) ! a) = 0"
      using a old assms(3,4) by (cases "a = i") (auto simp: serialize_def)
  qed
  ultimately show ?thesis using assms(1)
    by (simp add: store_wf_def registry_valid_def)
qed

lemma step_wf: "step s s' \<Longrightarrow> store_wf s \<Longrightarrow> store_wf s'"
proof (induction rule: step.induct)
  case (step_new_item s p g)
  then show ?case by (simp add: new_LRItem_wf)
next
  case (step_advance i s k s')
  have ok: "item_ok (itemObjs s ! i)"
    using step_advance.prems step_advance.hyps(1) by (rule store_wf_items)
  note u = advance_unfold [OF step_advance.hyps(2)]
  from ok u have "dotPosition (itemObjs s ! i) + 1 \<le> length (RHS (production (itemObjs s ! i)))"
    by (simp add: item_ok_def isFinal_def)
  with step_advance.prems show ?case using u by (simp only: new_LRItem_wf)
next
  case (step_register s key a)
  then show ?case
    by (auto simp: store_wf_def registry_valid_def registry_keyed_def)
next
  case (step_push c s a)
  then show ?case by (simp add: pushItem_wf)
next
  case (step_new_closure k s g)
  then show ?case
    by (auto simp: store_wf_def registry_valid_def registry_keyed_def closure_refs_valid_def
        allocClosure_def)
next
  case (step_connect i s c)
  have "item_ok (itemObjs s ! i)"
    using step_connect.prems step_connect.hyps(1) by (rule store_wf_items)
  then have "item_ok ((itemObjs s ! i)\<lparr>gotoPointer := Some c\<rparr>)"
    using step_connect.hyps(2) by (simp add: item_ok_def isFinal_def)
  with step_connect.prems show ?case unfolding setGotoPointer_def
    by (rule item_update_wf) simp_all
next
  case (step_set_closure i s c)
  have "item_ok (itemObjs s ! i)"
    using step_set_closure.prems step_set_closure.hyps(1) by (rule store_wf_items)
  then have "item_ok ((itemObjs s ! i)\<lparr>closure := Some c\<rparr>)"
    by (simp add: item_ok_def isFinal_def)
  with step_set_closure.prems show ?case unfolding setClosure_def
    by (rule item_update_wf) simp_all
qed

lemma step_evolves: "step s s' \<Longrightarrow> evolves s s'"
proof (induction rule: step.induct)
  case (step_new_item s p g)
  show ?case by (rule new_LRItem_evolves)
next
  case (step_advance i s k s')
  then show ?case using advance_unfold [OF step_advance.hyps(2)]
    by (simp only: new_LRItem_evolves)
next
  case (step_register s key a)
  then show ?case by (auto simp: evolves_def)
next
  case (step_push c s a)
  then show ?case by (simp add: evolves_def pushItem_def)
next
  case (step_new_closure k s g)
  then show ?case by (simp add: evolves_def allocClosure_def)
next
  case (step_connect i s c)
  then show ?case by (auto simp: evolves_def isConnected_def nth_list_update setGotoPointer_def)
next
  case (step_set_closure i s c)
  then show ?case by (auto simp: evolves_def nth_list_update setClosure_def)
qed

lemma session_wf: "session s s' \<Longrightarrow> store_wf s \<Longrightarrow> store_wf s'"
  by (induction rule: rtranclp_induct) (auto intro: step_wf)

lemma session_evolves: "session s s' \<Longrightarrow> evolves s s'"
  by (induction rule: rtranclp_induct) (auto intro: evolves_refl evolves_trans step_evolves)

text \<open>
  Every run of \<^verbatim>\<open>_build\<close>, of the constructor of \<^verbatim>\<open>Closure\<close>, of \<^verbatim>\<open>closure()\<close> and
  of \<^verbatim>\<open>goto()\<close> that returns is a session: the program changes the store by the
  assignments of \<open>step\<close> only.
\<close>

lemma evolves_closures_length: "evolves s s' \<Longrightarrow> c < length (closureObjs s) \<Longrightarrow> c < length (closureObjs s')"
  by (simp add: evolves_def)

lemma evolves_items_length: "evolves s s' \<Longrightarrow> i < length (itemObjs s) \<Longrightarrow> i < length (itemObjs s')"
  by (simp add: evolves_def)

lemma registerItem_session:
  assumes "registerItem p g s = (a, s')" and "store_wf s"
  shows "session s s' \<and> a < length (itemObjs s') \<and> prefix (itemObjs s) (itemObjs s') \<and>
         closureObjs s' = closureObjs s \<and> LRItemsRegistry s' (keyForItem p 0) = Some a"
proof (cases "LRItemsRegistry s (keyForItem p 0)")
  case None
  define s1 where "s1 = snd (new_LRItem p 0 g s)"
  have a: "a = length (itemObjs s)"
    and s': "s' = s1\<lparr> LRItemsRegistry := (LRItemsRegistry s1)(keyForItem p 0 \<mapsto> a) \<rparr>"
    using assms(1) None by (auto simp: registerItem_def Let_def new_LRItem_def s1_def)
  have 1: "step s s1" unfolding s1_def by (rule step_new_item)
  have "LRItemsRegistry s1 (keyForItem p 0) = None" "a < length (itemObjs s1)"
    "serialize (itemObjs s1 ! a) = keyForItem p 0" "dotPosition (itemObjs s1 ! a) = 0"
    using None a by (simp_all add: s1_def new_LRItem_def serialize_def)
  then have 2: "step s1 s'" unfolding s' by (rule step_register)
  from 1 2 have "session s s'" by auto
  moreover have "prefix (itemObjs s) (itemObjs s')" "closureObjs s' = closureObjs s"
    "a < length (itemObjs s')" "LRItemsRegistry s' (keyForItem p 0) = Some a"
    using a by (simp_all add: s' s1_def new_LRItem_def)
  ultimately show ?thesis by simp
next
  case (Some b)
  then have "a = b" "s' = s" using assms(1) by (simp_all add: registerItem_def)
  moreover have "b < length (itemObjs s)"
    using assms(2) Some by (auto simp: store_wf_def registry_valid_def)
  ultimately show ?thesis using Some by simp
qed

lemma pushItem_simps:
  "itemObjs (pushItem c a s) = itemObjs s"
  "length (closureObjs (pushItem c a s)) = length (closureObjs s)"
  "LRItemsRegistry (pushItem c a s) = LRItemsRegistry s"
  by (simp_all add: pushItem_def)

lemma forProductions_session:
  assumes rec: "\<And>s s'. store_wf s \<Longrightarrow> c < length (closureObjs s) \<Longrightarrow> rec s = Some (Inr s') \<Longrightarrow>
                  session s s' \<and> prefix (itemObjs s) (itemObjs s')"
  shows "store_wf s \<Longrightarrow> c < length (closureObjs s) \<Longrightarrow>
         forProductions rec c g ps s = Some (Inr s') \<Longrightarrow>
         session s s' \<and> prefix (itemObjs s) (itemObjs s')"
proof (induction ps arbitrary: s)
  case Nil
  then show ?case by simp
next
  case (Cons kp ps)
  obtain k p where kp: "kp = (k, p)" by (cases kp)
  obtain a s1 where r: "registerItem p g s = (a, s1)" by (cases "registerItem p g s")
  define s2 where "s2 = pushItem c a s1"
  from Cons.prems(3) obtain s3 where rec3: "rec s2 = Some (Inr s3)"
    and rest: "forProductions rec c g ps s3 = Some (Inr s')"
    by (auto simp: kp r s2_def split: option.splits sum.splits)
  note R = registerItem_session [OF r Cons.prems(1)]
  have wf1: "store_wf s1" using R Cons.prems(1) session_wf by blast
  have c1: "c < length (closureObjs s1)" using R Cons.prems(2) by simp
  have st2: "step s1 s2" unfolding s2_def using c1 R by (intro step_push) simp_all
  have wf2: "store_wf s2" using st2 wf1 by (rule step_wf)
  have c2: "c < length (closureObjs s2)" using c1 by (simp add: s2_def pushItem_simps)
  note R3 = rec [OF wf2 c2 rec3]
  have wf3: "store_wf s3" using R3 wf2 session_wf by blast
  have c3: "c < length (closureObjs s3)"
    using R3 c2 session_evolves evolves_closures_length by blast
  note R4 = Cons.IH [OF wf3 c3 rest]
  have "session s s'" using R st2 R3 R4 by auto
  moreover have "prefix (itemObjs s) (itemObjs s')"
    using R R3 R4 by (auto simp: s2_def pushItem_simps intro: prefix_order.order_trans)
  ultimately show ?case by simp
qed

lemma build_session:
  "store_wf s \<Longrightarrow> c < length (closureObjs s) \<Longrightarrow> build n c s = Some (Inr s') \<Longrightarrow>
   session s s' \<and> prefix (itemObjs s) (itemObjs s')"
proof (induction n arbitrary: s s')
  case 0
  then show ?case by simp
next
  case (Suc n)
  show ?case
  proof (cases "shouldClosure (itemObjs s ! currentItem (closureObjs s ! c))")
    case (Inl e)
    with Suc.prems(3) show ?thesis by (simp add: Let_def)
  next
    case (Inr b)
    show ?thesis
    proof (cases b)
      case False
      with Inr Suc.prems(3) show ?thesis by (simp add: Let_def)
    next
      case True
      with Inr Suc.prems(3) obtain ps where
        "forProductions (build n c) c (closure_grammar (closureObjs s ! c)) ps s = Some (Inr s')"
        by (simp add: Let_def)
      then show ?thesis
        using forProductions_session [of c "build n c", OF Suc.IH Suc.prems(1,2)] by blast
    qed
  qed
qed

lemma new_Closure_unfold:
  "new_Closure n k g s = Some (Inr (c, s')) \<Longrightarrow>
   c = length (closureObjs s) \<and> build n c (snd (allocClosure k g s)) = Some (Inr s')"
  by (auto simp: new_Closure_def allocClosure_def Let_def split: option.splits sum.splits)

lemma new_Closure_session:
  assumes "store_wf s" and "k < length (itemObjs s)"
    and "new_Closure n k g s = Some (Inr (c, s'))"
  shows "session s s' \<and> prefix (itemObjs s) (itemObjs s') \<and> c = length (closureObjs s) \<and>
         c < length (closureObjs s')"
proof -
  define s1 where "s1 = snd (allocClosure k g s)"
  have c: "c = length (closureObjs s)" and b: "build n c s1 = Some (Inr s')"
    using new_Closure_unfold [OF assms(3)] unfolding s1_def by blast+
  have st: "step s s1" unfolding s1_def using assms(2) by (rule step_new_closure)
  have wf1: "store_wf s1" using st assms(1) by (rule step_wf)
  have c1: "c < length (closureObjs s1)" by (simp add: c s1_def allocClosure_def)
  have i1: "itemObjs s1 = itemObjs s" by (simp add: s1_def allocClosure_def)
  note B = build_session [OF wf1 c1 b]
  have "session s s'" using st B by auto
  moreover have "prefix (itemObjs s) (itemObjs s')" using B i1 by simp
  moreover have "c < length (closureObjs s')"
    using B c1 session_evolves evolves_closures_length by blast
  ultimately show ?thesis using c by simp
qed

lemma forEachItem_session:
  assumes rec: "\<And>i s r s'. store_wf s \<Longrightarrow> i < length (itemObjs s) \<Longrightarrow>
                  rec i s = Some (Inr (r, s')) \<Longrightarrow> session s s'"
  shows "store_wf s \<Longrightarrow> \<forall>i\<in>set is. i < length (itemObjs s) \<Longrightarrow>
         forEachItem rec is s = Some (Inr s') \<Longrightarrow> session s s'"
proof (induction "is" arbitrary: s)
  case Nil
  then show ?case by simp
next
  case (Cons i "is")
  from Cons.prems(3) obtain r s1 where 1: "rec i s = Some (Inr (r, s1))"
    and rest: "forEachItem rec is s1 = Some (Inr s')"
    by (auto split: option.splits sum.splits)
  have i: "i < length (itemObjs s)" using Cons.prems(2) by simp
  note R = rec [OF Cons.prems(1) i 1]
  have wf1: "store_wf s1" using R Cons.prems(1) by (rule session_wf)
  have "\<forall>j\<in>set is. j < length (itemObjs s1)"
    using Cons.prems(2) session_evolves [OF R] by (auto simp: evolves_def)
  from Cons.IH [OF wf1 this rest] R show ?case by auto
qed

lemma prefix_nth: "prefix xs ys \<Longrightarrow> i < length xs \<Longrightarrow> ys ! i = xs ! i"
  by (auto simp: prefix_def nth_append)

lemma LRItem_goto_stay:
  "isFinal (itemObjs s ! i) \<or> isConnected (itemObjs s ! i) \<Longrightarrow>
   LRItem_goto (Suc n) i s = Some (Inr (gotoPointer (itemObjs s ! i), s))"
  by (auto simp: Let_def)

lemma LRItem_goto_unfold:
  assumes "\<not> isFinal (itemObjs s ! i)" and "\<not> isConnected (itemObjs s ! i)"
    and "advance i s = Inr (k, s1)"
    and "new_Closure n k (item_grammar (itemObjs s ! i)) s1 = Some (Inr (c, s2))"
  shows "LRItem_goto (Suc n) i s =
     (case forEachItem (LRItem_goto n) (items (closureObjs (setGotoPointer i c s2) ! c))
             (setGotoPointer i c s2) of
        None \<Rightarrow> None
      | Some (Inl e) \<Rightarrow> Some (Inl e)
      | Some (Inr s4) \<Rightarrow> Some (Inr (gotoPointer (itemObjs s4 ! i), s4)))"
  using assms by (simp add: Let_def)

lemma advance_nonfinal:
  "\<not> isFinal (itemObjs s ! i) \<Longrightarrow> \<exists>k s1. advance i s = Inr (k, s1)"
  by (simp add: advance_def Let_def new_LRItem_def)

lemma LRItem_goto_session:
  "store_wf s \<Longrightarrow> i < length (itemObjs s) \<Longrightarrow> LRItem_goto n i s = Some (Inr (r, s')) \<Longrightarrow>
   session s s' \<and> r = gotoPointer (itemObjs s' ! i) \<and>
   (\<not> isFinal (itemObjs s ! i) \<longrightarrow> r \<noteq> None)"
proof (induction n arbitrary: i s r s')
  case 0
  then show ?case by simp
next
  case (Suc n)
  let ?it = "itemObjs s ! i"
  show ?case
  proof (cases "isFinal ?it \<or> isConnected ?it")
    case True
    have "LRItem_goto (Suc n) i s = Some (Inr (gotoPointer ?it, s))"
      by (rule LRItem_goto_stay [OF True])
    with Suc.prems(3) have "r = gotoPointer ?it" "s' = s"
      by (auto simp del: LRItem_goto.simps)
    then show ?thesis using True by (auto simp: isConnected_def)
  next
    case False
    then have nf: "\<not> isFinal ?it" and nc: "\<not> isConnected ?it" by simp_all
    from advance_nonfinal [OF nf] obtain k s1 where adv: "advance i s = Inr (k, s1)" by blast
    have st1: "step s s1" using Suc.prems(2) adv by (rule step_advance)
    have wf1: "store_wf s1" using st1 Suc.prems(1) by (rule step_wf)
    note u = advance_unfold [OF adv]
    have p1: "prefix (itemObjs s) (itemObjs s1)" and k1: "k < length (itemObjs s1)"
      using u by (simp_all add: new_LRItem_def)
    obtain c s2 where ncl: "new_Closure n k (item_grammar ?it) s1 = Some (Inr (c, s2))"
    proof (cases "new_Closure n k (item_grammar ?it) s1")
      case None
      with Suc.prems(3) nf nc adv show ?thesis by (simp add: Let_def)
    next
      case (Some x)
      then show ?thesis
        using Suc.prems(3) nf nc adv that by (cases x) (auto simp: Let_def)
    qed
    define s3 where "s3 = setGotoPointer i c s2"
    note G = LRItem_goto_unfold [OF nf nc adv ncl, folded s3_def]
    define fr where "fr = forEachItem (LRItem_goto n) (items (closureObjs s3 ! c)) s3"
    have E: "(case fr of None \<Rightarrow> None | Some (Inl e) \<Rightarrow> Some (Inl e)
              | Some (Inr s4) \<Rightarrow> Some (Inr (gotoPointer (itemObjs s4 ! i), s4))) =
             Some (Inr (r, s'))"
      using Suc.prems(3) G by (simp only: fr_def)
    obtain s4 where fe: "fr = Some (Inr s4)"
      and res: "r = gotoPointer (itemObjs s4 ! i)" "s' = s4"
    proof (cases fr)
      case None
      with E show ?thesis by simp
    next
      case (Some x)
      with E that show ?thesis by (cases x) auto
    qed
    note fe = fe [unfolded fr_def]
    note N = new_Closure_session [OF wf1 k1 ncl]
    have wf2: "store_wf s2" using N wf1 session_wf by blast
    have p2: "prefix (itemObjs s) (itemObjs s2)"
      using p1 N prefix_order.order_trans by blast
    have i2: "i < length (itemObjs s2)" using p2 Suc.prems(2) prefix_length_le by fastforce
    have same: "itemObjs s2 ! i = ?it" using p2 Suc.prems(2) by (rule prefix_nth)
    have st3: "step s2 s3" unfolding s3_def using i2 nf nc same by (intro step_connect) simp_all
    have wf3: "store_wf s3" using st3 wf2 by (rule step_wf)
    have c3: "c < length (closureObjs s3)" using N by (simp add: s3_def setGotoPointer_def)
    have "closure_refs_valid (length (itemObjs s3)) (closureObjs s3 ! c)"
      using wf3 c3 by (rule store_wf_closures)
    then have its: "\<forall>j\<in>set (items (closureObjs s3 ! c)). j < length (itemObjs s3)"
      by (simp add: closure_refs_valid_def)
    have ih: "\<And>i s r s'. store_wf s \<Longrightarrow> i < length (itemObjs s) \<Longrightarrow>
                  LRItem_goto n i s = Some (Inr (r, s')) \<Longrightarrow> session s s'"
      using Suc.IH by blast
    have s34: "session s3 s4"
      using forEachItem_session [of "LRItem_goto n", OF ih wf3 its fe] .
    have "session s s4" using st1 N st3 s34 by auto
    moreover have i3: "i < length (itemObjs s3)" using i2 by (simp add: s3_def setGotoPointer_def)
    have "gotoPointer (itemObjs s3 ! i) = Some c" using i2 by (simp add: s3_def setGotoPointer_def)
    then have "gotoPointer (itemObjs s4 ! i) = Some c"
      using session_evolves [OF s34] i3 by (simp add: evolves_def)
    ultimately show ?thesis using res by simp
  qed
qed

lemma LRItem_closure_session:
  assumes "store_wf s" and "i < length (itemObjs s)"
    and "LRItem_closure n i s = Some (Inr (r, s'))"
  shows "session s s'"
proof (cases "shouldClosure (itemObjs s ! i)")
  case (Inl e)
  with assms(3) show ?thesis by (simp add: LRItem_closure_def Let_def)
next
  case (Inr b)
  show ?thesis
  proof (cases b)
    case False
    with Inr assms(3) show ?thesis by (simp add: LRItem_closure_def Let_def)
  next
    case True
    with Inr assms(3) obtain c s1 where
      nc: "new_Closure n i (item_grammar (itemObjs s ! i)) s = Some (Inr (c, s1))"
      and s': "s' = setClosure i c s1"
      by (auto simp: LRItem_closure_def Let_def split: option.splits sum.splits)
    note N = new_Closure_session [OF assms(1,2) nc]
    have "i < length (itemObjs s1)" using N assms(2) prefix_length_le by fastforce
    then have "step s1 s'" unfolding s' by (rule step_set_closure)
    with N show ?thesis by auto
  qed
qed

lemma Closure_goto_session:
  assumes "store_wf s" and "c < length (closureObjs s)"
    and "Closure_goto n c s = Some (Inr s')"
  shows "session s s'"
proof -
  have "closure_refs_valid (length (itemObjs s)) (closureObjs s ! c)"
    using assms(1,2) by (rule store_wf_closures)
  then have its: "\<forall>j\<in>set (items (closureObjs s ! c)). j < length (itemObjs s)"
    by (simp add: closure_refs_valid_def)
  have ih: "\<And>i s r s'. store_wf s \<Longrightarrow> i < length (itemObjs s) \<Longrightarrow>
                  LRItem_goto n i s = Some (Inr (r, s')) \<Longrightarrow> session s s'"
    using LRItem_goto_session by blast
  show ?thesis
    using forEachItem_session [of "LRItem_goto n", OF ih assms(1) its] assms(3)
    by (simp add: Closure_goto_def)
qed

section \<open>Goto\<close>


lemma emptyStore_wf: "store_wf emptyStore"
  by (simp add: store_wf_def registry_valid_def registry_keyed_def emptyStore_def)







section \<open>The registry\<close>

text \<open>
  Claim C1. Let the loop of \<^verbatim>\<open>_build\<close> look up, or create, the dot-0 item of a
  production in a well-formed store. At every later store of the session the same lookup,
  from whatever closure and with whatever grammar argument, returns the same item
  reference and allocates nothing; the item found is still the item at dot position 0
  whose key is the key of the production. Once that item has a goto target, the target
  stays: at every still later store the lookup returns the same item, the item holds the
  same closure reference, and \<^verbatim>\<open>goto()\<close> on it returns that closure, leaving the store
  as it is.
\<close>

theorem registry_sharing:
  assumes "store_wf s" and "registerItem p g s = (a, s1)" and "session s1 s2"
  shows "a < length (itemObjs s2) \<and>
         LRItemsRegistry s2 (keyForItem p 0) = Some a \<and>
         registerItem p g' s2 = (a, s2) \<and>
         serialize (itemObjs s2 ! a) = keyForItem p 0 \<and>
         dotPosition (itemObjs s2 ! a) = 0 \<and>
         production (itemObjs s2 ! a) = production (itemObjs s1 ! a) \<and>
         (\<forall>c s3 n. gotoPointer (itemObjs s2 ! a) = Some c \<and> session s2 s3 \<longrightarrow>
            gotoPointer (itemObjs s3 ! a) = Some c \<and>
            registerItem p g' s3 = (a, s3) \<and>
            LRItem_goto (Suc n) a s3 = Some (Inr (Some c, s3)))"
proof -
  note R = registerItem_session [OF assms(2,1)]
  note E = session_evolves [OF assms(3)]
  have a1: "a < length (itemObjs s1)" using R by simp
  have a2: "a < length (itemObjs s2)" using E a1 by (rule evolves_items_length)
  have reg2: "LRItemsRegistry s2 (keyForItem p 0) = Some a"
    using R E by (simp add: evolves_def)
  have look: "\<And>t. LRItemsRegistry t (keyForItem p 0) = Some a \<Longrightarrow> registerItem p g' t = (a, t)"
    by (simp add: registerItem_def)
  have wf2: "store_wf s2" using R assms(1,3) session_wf by blast
  have keyed: "serialize (itemObjs s2 ! a) = keyForItem p 0 \<and> dotPosition (itemObjs s2 ! a) = 0"
    using wf2 reg2 by (simp add: store_wf_def registry_keyed_def)
  have same: "production (itemObjs s2 ! a) = production (itemObjs s1 ! a)"
    using E a1 by (simp add: evolves_def)
  have later: "gotoPointer (itemObjs s3 ! a) = Some c \<and>
            registerItem p g' s3 = (a, s3) \<and>
            LRItem_goto (Suc n) a s3 = Some (Inr (Some c, s3))"
    if "gotoPointer (itemObjs s2 ! a) = Some c \<and> session s2 s3" for c s3 n
  proof -
    from that have E3: "evolves s2 s3" using session_evolves by blast
    have gp: "gotoPointer (itemObjs s3 ! a) = Some c"
      using E3 a2 that by (simp add: evolves_def)
    then have con: "isFinal (itemObjs s3 ! a) \<or> isConnected (itemObjs s3 ! a)"
      by (simp add: isConnected_def)
    have "LRItemsRegistry s3 (keyForItem p 0) = Some a"
      using E3 reg2 by (simp add: evolves_def)
    then show ?thesis using gp LRItem_goto_stay [OF con, of n] look
      by (simp del: LRItem_goto.simps)
  qed
  from a2 reg2 look [OF reg2] keyed same later show ?thesis by blast
qed

lemma registerItem_eps: "registerItem epsProduction epsGrammar emptyStore = (0, regStore)"
  by (simp add: registerItem_def emptyStore_def new_LRItem_def regStore_def epsStore_def Let_def)

lemma goto_reg: "LRItem_goto (Suc (Suc 0)) 0 regStore = Some (Inr (Some 0, regGotoStore))"
  by (simp add: regStore_def regGotoStore_def epsStore_def new_LRItem_def emptyStore_def
      isFinal_def isConnected_def
      advance_def new_Closure_def allocClosure_def setGotoPointer_def shouldClosure_def
      epsProduction_def gotoStore_def Let_def)


theorem registry_sharing_witness:
  "store_wf emptyStore \<and>
   registerItem epsProduction epsGrammar emptyStore = (0, regStore) \<and>
   session regStore regGotoStore \<and>
   registerItem epsProduction epsGrammar regGotoStore = (0, regGotoStore) \<and>
   serialize (itemObjs regGotoStore ! 0) = keyForItem epsProduction 0 \<and>
   gotoPointer (itemObjs regGotoStore ! 0) = Some 0 \<and>
   LRItem_goto (Suc 0) 0 regGotoStore = Some (Inr (Some 0, regGotoStore))"
proof -
  note R = registerItem_session [OF registerItem_eps emptyStore_wf]
  have wf: "store_wf regStore" using R emptyStore_wf session_wf by blast
  have i: "0 < length (itemObjs regStore)" by (simp add: regStore_def epsStore_items)
  have ses: "session regStore regGotoStore"
    using LRItem_goto_session [OF wf i goto_reg] by simp
  have gp: "gotoPointer (itemObjs regGotoStore ! 0) = Some 0"
    by (simp add: regGotoStore_def gotoStore_def)
  have refl: "session regGotoStore regGotoStore" by simp
  note T = registry_sharing [OF emptyStore_wf registerItem_eps ses, of epsGrammar]
  from T have a: "registerItem epsProduction epsGrammar regGotoStore = (0, regGotoStore)"
    and b: "serialize (itemObjs regGotoStore ! 0) = keyForItem epsProduction 0"
    by blast+
  from T gp refl have c: "LRItem_goto (Suc 0) 0 regGotoStore = Some (Inr (Some 0, regGotoStore))"
    by blast
  from emptyStore_wf registerItem_eps ses a b gp c show ?thesis by (intro conjI)
qed


section \<open>Errors of the construction\<close>

lemma shouldClosure_error: "shouldClosure it = Inl e \<Longrightarrow> e = TypeError"
  by (auto simp: shouldClosure_def isNonTerminal_def isTerminal_def
      split: if_splits option.splits sum.splits)

lemma forProductions_error:
  assumes rec: "\<And>s e. rec s = Some (Inl e) \<Longrightarrow> e = TypeError"
  shows "forProductions rec c g ps s = Some (Inl e) \<Longrightarrow> e = TypeError"
proof (induction ps arbitrary: s)
  case Nil
  then show ?case by simp
next
  case (Cons kp ps)
  obtain k p where kp: "kp = (k, p)" by (cases kp)
  obtain a s1 where r: "registerItem p g s = (a, s1)" by (cases "registerItem p g s")
  show ?case
  proof (cases "rec (pushItem c a s1)")
    case None
    with Cons.prems show ?thesis by (simp add: kp r)
  next
    case (Some x)
    show ?thesis
    proof (cases x)
      case (Inl e')
      with Some Cons.prems have "e = e'" by (simp add: kp r)
      with rec Some Inl show ?thesis by blast
    next
      case (Inr s3)
      with Some Cons.prems have "forProductions rec c g ps s3 = Some (Inl e)"
        by (simp add: kp r)
      then show ?thesis by (rule Cons.IH)
    qed
  qed
qed

lemma build_error: "build n c s = Some (Inl e) \<Longrightarrow> e = TypeError"
proof (induction n arbitrary: s e)
  case 0
  then show ?case by simp
next
  case (Suc n)
  show ?case
  proof (cases "shouldClosure (itemObjs s ! currentItem (closureObjs s ! c))")
    case (Inl e')
    with Suc.prems have "e = e'" by (simp add: Let_def)
    with Inl show ?thesis using shouldClosure_error by blast
  next
    case (Inr b)
    show ?thesis
    proof (cases b)
      case False
      with Inr Suc.prems show ?thesis by (simp add: Let_def)
    next
      case True
      with Inr Suc.prems obtain ps where
        "forProductions (build n c) c (closure_grammar (closureObjs s ! c)) ps s = Some (Inl e)"
        by (simp add: Let_def)
      then show ?thesis using forProductions_error [of "build n c"] Suc.IH by blast
    qed
  qed
qed

lemma new_Closure_error: "new_Closure n k g s = Some (Inl e) \<Longrightarrow> e = TypeError"
  by (auto simp: new_Closure_def Let_def split: prod.splits option.splits sum.splits
      dest: build_error)

lemma forEachItem_error:
  assumes rec: "\<And>i s e. rec i s = Some (Inl e) \<Longrightarrow> e = TypeError"
  shows "forEachItem rec is s = Some (Inl e) \<Longrightarrow> e = TypeError"
proof (induction "is" arbitrary: s)
  case Nil
  then show ?case by simp
next
  case (Cons i "is")
  show ?case
  proof (cases "rec i s")
    case None
    with Cons.prems show ?thesis by simp
  next
    case (Some x)
    show ?thesis
    proof (cases x)
      case (Inl e')
      with Some Cons.prems have "e = e'" by simp
      with rec Some Inl show ?thesis by blast
    next
      case (Inr rs)
      obtain r s1 where "rs = (r, s1)" by (cases rs)
      with Inr Some Cons.prems have "forEachItem rec is s1 = Some (Inl e)" by simp
      then show ?thesis by (rule Cons.IH)
    qed
  qed
qed

lemma LRItem_goto_error: "LRItem_goto n i s = Some (Inl e) \<Longrightarrow> e = TypeError"
proof (induction n arbitrary: i s e)
  case 0
  then show ?case by simp
next
  case (Suc n)
  let ?it = "itemObjs s ! i"
  show ?case
  proof (cases "isFinal ?it \<or> isConnected ?it")
    case True
    from LRItem_goto_stay [OF True, of n] Suc.prems show ?thesis
      by (simp del: LRItem_goto.simps)
  next
    case False
    then have nf: "\<not> isFinal ?it" and nc: "\<not> isConnected ?it" by simp_all
    from advance_nonfinal [OF nf] obtain k s1 where adv: "advance i s = Inr (k, s1)" by blast
    show ?thesis
    proof (cases "new_Closure n k (item_grammar ?it) s1")
      case None
      with Suc.prems nf nc adv show ?thesis by (simp add: Let_def)
    next
      case (Some x)
      show ?thesis
      proof (cases x)
        case (Inl e')
        with Some Suc.prems nf nc adv have "e = e'" by (simp add: Let_def)
        with Some Inl show ?thesis using new_Closure_error by blast
      next
        case (Inr cs)
        obtain c s2 where "cs = (c, s2)" by (cases cs)
        with Some Inr have ncl: "new_Closure n k (item_grammar ?it) s1 = Some (Inr (c, s2))"
          by simp
        define fr where "fr = forEachItem (LRItem_goto n)
            (items (closureObjs (setGotoPointer i c s2) ! c)) (setGotoPointer i c s2)"
        have E: "(case fr of None \<Rightarrow> None | Some (Inl e) \<Rightarrow> Some (Inl e)
              | Some (Inr s4) \<Rightarrow> Some (Inr (gotoPointer (itemObjs s4 ! i), s4))) =
             Some (Inl e)"
          using Suc.prems LRItem_goto_unfold [OF nf nc adv ncl] by (simp only: fr_def)
        have "fr = Some (Inl e)"
        proof (cases fr)
          case None
          with E show ?thesis by simp
        next
          case (Some y)
          with E show ?thesis by (cases y) auto
        qed
        then show ?thesis
          unfolding fr_def using forEachItem_error [of "LRItem_goto n"] Suc.IH by blast
      qed
    qed
  qed
qed

lemma Closure_goto_error: "Closure_goto n c s = Some (Inl e) \<Longrightarrow> e = TypeError"
  unfolding Closure_goto_def using forEachItem_error [of "LRItem_goto n"] LRItem_goto_error
  by blast

lemma LRItem_closure_error: "LRItem_closure n i s = Some (Inl e) \<Longrightarrow> e = TypeError"
  by (auto simp: LRItem_closure_def Let_def split: sum.splits bool.splits option.splits
      dest: shouldClosure_error new_Closure_error)

lemma construct_error: "construct n g s = Some (Inl e) \<Longrightarrow> e = TypeError"
  by (auto simp: construct_def Let_def split: option.splits sum.splits prod.splits
      dest: LRItem_closure_error Closure_goto_error)

lemma LRItem_closure_result:
  assumes "store_wf s" and "i < length (itemObjs s)"
    and "LRItem_closure n i s = Some (Inr (Some c, s'))"
  shows "c < length (closureObjs s')"
proof -
  from assms(3) obtain s1 where
    nc: "new_Closure n i (item_grammar (itemObjs s ! i)) s = Some (Inr (c, s1))"
    and s': "s' = setClosure i c s1"
    by (auto simp: LRItem_closure_def Let_def split: sum.splits bool.splits option.splits)
  from new_Closure_session [OF assms(1,2) nc] show ?thesis
    by (simp add: s' setClosure_def)
qed

lemma construct_session:
  assumes "store_wf s" and "construct n g s = Some (Inr (k, s'))"
  shows "session s s'"
proof -
  from assms(2) obtain p where p: "getAugmentedProduction g = Some p"
    by (cases "getAugmentedProduction g") (simp_all add: construct_def)
  define s0 where "s0 = snd (new_LRItem p 0 g s)"
  have k0: "fst (new_LRItem p 0 g s) = length (itemObjs s)" by (simp add: new_LRItem_def)
  from assms(2) p obtain c s1 where
    cl: "LRItem_closure n (length (itemObjs s)) s0 = Some (Inr (Some c, s1))"
    and go: "Closure_goto n c s1 = Some (Inr s')"
    by (auto simp: construct_def s0_def new_LRItem_def Let_def
        split: option.splits sum.splits prod.splits)
  have st0: "step s s0" unfolding s0_def by (rule step_new_item)
  have wf0: "store_wf s0" using st0 assms(1) by (rule step_wf)
  have i0: "length (itemObjs s) < length (itemObjs s0)" by (simp add: s0_def new_LRItem_def)
  have s01: "session s0 s1" using wf0 i0 cl by (rule LRItem_closure_session)
  have wf1: "store_wf s1" using s01 wf0 by (rule session_wf)
  have c1: "c < length (closureObjs s1)" using wf0 i0 cl by (rule LRItem_closure_result)
  have "session s1 s'" using wf1 c1 go by (rule Closure_goto_session)
  with st0 s01 show ?thesis by auto
qed


text \<open>
  Claim C9. \<^verbatim>\<open>advance()\<close> raises its \<^verbatim>\<open>Error\<close> exactly on a final item, nothing in the
  program catches it, and no run of the driver, of \<^verbatim>\<open>closure()\<close> or of \<^verbatim>\<open>goto()\<close>,
  on an item or on a closure, ends in that error, whatever the fuel: \<^verbatim>\<open>advance()\<close> is
  never called on a final item. Started from a well-formed store, a run of the driver that
  returns leaves every item with its dot within its right-hand side; as an advanced item
  has the dot of its source plus one, every source of an advance had its dot strictly
  before the end.
\<close>

theorem advance_never_on_final:
  "(\<forall>m. construct n g s \<noteq> Some (Inl (Error m))) \<and>
   (\<forall>m. LRItem_closure n i s \<noteq> Some (Inl (Error m))) \<and>
   (\<forall>m. LRItem_goto n i s \<noteq> Some (Inl (Error m))) \<and>
   (\<forall>m. Closure_goto n c s \<noteq> Some (Inl (Error m))) \<and>
   ((\<exists>m. advance i s = Inl (Error m)) \<longleftrightarrow> isFinal (itemObjs s ! i)) \<and>
   (store_wf s \<longrightarrow>
      (\<forall>k s'. construct n g s = Some (Inr (k, s')) \<longrightarrow>
         (\<forall>it\<in>set (itemObjs s'). dotPosition it \<le> length (RHS (production it)))))"
proof -
  have "\<forall>k s'. construct n g s = Some (Inr (k, s')) \<longrightarrow>
         (\<forall>it\<in>set (itemObjs s'). dotPosition it \<le> length (RHS (production it)))"
    if wf: "store_wf s"
  proof (intro allI impI)
    fix k s'
    assume "construct n g s = Some (Inr (k, s'))"
    from construct_session [OF wf this] wf have "store_wf s'" by (rule session_wf)
    then show "\<forall>it\<in>set (itemObjs s'). dotPosition it \<le> length (RHS (production it))"
      by (simp add: store_wf_def item_ok_def)
  qed
  moreover have "(\<exists>m. advance i s = Inl (Error m)) \<longleftrightarrow> isFinal (itemObjs s ! i)"
    by (auto simp: advance_def Let_def)
  ultimately show ?thesis
    using construct_error [of n g s] LRItem_closure_error [of n i s]
      LRItem_goto_error [of n i s] Closure_goto_error [of n c s]
    by (intro conjI allI impI notI) auto
qed

lemma construct_eps:
  "construct (Suc (Suc 0)) epsGrammar emptyStore = Some (Inr (0, constructedStore))"
  by (simp add: construct_def getAugmentedProduction_def epsGrammar_def new_LRItem_def
      emptyStore_def LRItem_closure_def shouldClosure_def isFinal_def getCurrentSymbol_def
      isNonTerminal_def isTerminal_def isQuote_def epsAugmented_def epsProduction_def
      new_Closure_def allocClosure_def getProductionsForSymbol_def isSymbol_def
      registerItem_def pushItem_def setClosure_def Closure_goto_def isConnected_def
      advance_def setGotoPointer_def constructedStore_def EPSILON_def js_def Let_def)


theorem advance_never_on_final_witness:
  "store_wf emptyStore \<and>
   construct (Suc (Suc 0)) epsGrammar emptyStore = Some (Inr (0, constructedStore)) \<and>
   list_all (\<lambda>it. dotPosition it \<le> length (RHS (production it))) (itemObjs constructedStore) \<and>
   isFinal (itemObjs constructedStore ! 3) \<and>
   advance 3 constructedStore =
     Inl (Error (js ''Item for '' @ raw epsProduction @ js '' is final.''))"
proof -
  note T = advance_never_on_final [of "Suc (Suc 0)" epsGrammar emptyStore 3 0]
  from T emptyStore_wf construct_eps
  have "\<forall>it\<in>set (itemObjs constructedStore). dotPosition it \<le> length (RHS (production it))"
    by blast
  then have a: "list_all (\<lambda>it. dotPosition it \<le> length (RHS (production it)))
                  (itemObjs constructedStore)"
    by (simp add: list_all_iff)
  have f: "isFinal (itemObjs constructedStore ! 3)"
    by (simp add: constructedStore_def isFinal_def epsProduction_def)
  have b: "advance 3 constructedStore =
     Inl (Error (js ''Item for '' @ raw epsProduction @ js '' is final.''))"
    using f by (simp add: advance_def Let_def) (simp add: constructedStore_def)
  from emptyStore_wf construct_eps a f b show ?thesis by (intro conjI)
qed


section \<open>Left recursion\<close>

lemma lrGrammar_loaded:
  "new_Grammar (BnfArray [js ''S -> S \"a\"'', js ''| \"b\"'']) = Inr lrGrammar"
  by (simp add: new_Grammar_def normalizeBnf_def toArray_def Production_normalize_def js_def
      ARROW_def BAR_def trim_def isWhiteSpace_def falsy_def templateStr_def EPSILON_def
      lrGrammar_def lrProduction1_def lrProduction2_def lrAugmented_def QUOTE_def Let_def
      setLHS_def)

lemma lr_productions:
  "getProductionsForSymbol lrGrammar (Some (js ''S'')) = [(1, lrProduction1), (2, lrProduction2)]"
  by (simp add: getProductionsForSymbol_def isSymbol_def lrGrammar_def lrAugmented_def
      lrProduction1_def lrProduction2_def js_def)

lemma lr_shouldClosure:
  assumes "dotPosition it = 0"
    and "production it = lrAugmented \<or> production it = lrProduction1"
  shows "shouldClosure it = Inr True \<and>
         getCurrentSymbol it = Some (GrammarSymbol (Some (js ''S'')))"
  using assms
  by (auto simp: shouldClosure_def isFinal_def getCurrentSymbol_def isNonTerminal_def
      isTerminal_def isQuote_def lrAugmented_def lrProduction1_def js_def)

lemma leftrec_step:
  assumes "leftrec_loop c s" and "registerItem lrProduction1 lrGrammar s = (a, s1)"
  shows "leftrec_loop c (pushItem c a s1)"
proof (cases "LRItemsRegistry s (keyForItem lrProduction1 0)")
  case None
  with assms(2) have a: "a = length (itemObjs s)"
    and s1: "s1 = \<lparr> itemObjs = itemObjs s @
                 [\<lparr> production = lrProduction1, dotPosition = 0, item_grammar = lrGrammar,
                    closure = None, gotoPointer = None \<rparr>],
               closureObjs = closureObjs s,
               LRItemsRegistry = (LRItemsRegistry s)(keyForItem lrProduction1 0 \<mapsto> length (itemObjs s)) \<rparr>"
    by (auto simp: registerItem_def new_LRItem_def Let_def)
  show ?thesis
    using assms(1) unfolding leftrec_loop_def
    by (simp add: pushItem_def a s1)
next
  case (Some b)
  with assms(2) have "a = b" "s1 = s" by (simp_all add: registerItem_def)
  then show ?thesis
    using assms(1) Some unfolding leftrec_loop_def
    by (simp add: pushItem_def)
qed

lemma build_leftrec: "leftrec_loop c s \<Longrightarrow> build n c s = None"
proof (induction n arbitrary: s)
  case 0
  show ?case by simp
next
  case (Suc n)
  let ?cur = "itemObjs s ! currentItem (closureObjs s ! c)"
  have g: "closure_grammar (closureObjs s ! c) = lrGrammar"
    using Suc.prems by (simp add: leftrec_loop_def)
  have "dotPosition ?cur = 0" "production ?cur = lrAugmented \<or> production ?cur = lrProduction1"
    using Suc.prems by (simp_all add: leftrec_loop_def)
  note sc = lr_shouldClosure [OF this]
  obtain a s1 where r: "registerItem lrProduction1 lrGrammar s = (a, s1)"
    by (cases "registerItem lrProduction1 lrGrammar s")
  have "build n c (pushItem c a s1) = None"
    using leftrec_step [OF Suc.prems r] by (rule Suc.IH)
  then show ?case
    using sc g r by (simp add: Let_def lr_productions)
qed


text \<open>
  Claim C2 fails on the program. On the grammar of the lines \<^verbatim>\<open>S -> S "a"\<close> and
  \<^verbatim>\<open>| "b"\<close> the item added for the first production has the non-terminal \<^verbatim>\<open>S\<close> at
  its dot again, and \<^verbatim>\<open>_build\<close> calls itself on it without end: the driver returns for
  no amount of fuel.
\<close>

theorem left_recursion_never_returns:
  "new_Grammar (BnfArray [js ''S -> S \"a\"'', js ''| \"b\"'']) = Inr lrGrammar \<and>
   (\<forall>n. construct n lrGrammar emptyStore = None)"
proof -
  have "construct n lrGrammar emptyStore = None" for n
  proof -
    define s1 where "s1 = snd (allocClosure 0 lrGrammar (snd (new_LRItem lrAugmented 0 lrGrammar emptyStore)))"
    have "leftrec_loop 0 s1"
      by (simp add: leftrec_loop_def s1_def allocClosure_def new_LRItem_def emptyStore_def)
    then have b: "build n 0 s1 = None" by (rule build_leftrec)
    have sc: "shouldClosure \<lparr> production = lrAugmented, dotPosition = 0, item_grammar = lrGrammar,
               closure = None, gotoPointer = None \<rparr> = Inr True"
      using lr_shouldClosure [of "\<lparr> production = lrAugmented, dotPosition = 0,
               item_grammar = lrGrammar, closure = None, gotoPointer = None \<rparr>"] by simp
    have a: "getAugmentedProduction lrGrammar = Some lrAugmented"
      by (simp add: getAugmentedProduction_def lrGrammar_def)
    show ?thesis
      using b sc
      by (simp add: construct_def a new_LRItem_def emptyStore_def LRItem_closure_def
          new_Closure_def allocClosure_def s1_def Let_def)
  qed
  with lrGrammar_loaded show ?thesis by simp
qed

end
